theory Spec2Isabelle
  imports Main "HOL-Library.AList"
begin

section \<open>Characters and strings\<close>

text \<open>
  A Python \<open>str\<close> is a sequence of code points; here a character is a code point below 256
  (\<^typ>\<open>char\<close>) and a string is a \<^typ>\<open>string\<close>. The three character tests below are the ones
  Python's \<open>re\<close> module and \<open>str.rstrip\<close> use on that range: \<open>\s\<close> and \<open>rstrip\<close> share
  the white-space test (tab to carriage return, the four separators 28 to 31, space, NEL and
  the no-break space), \<open>\d\<close> is a decimal digit.
\<close>

definition isspace :: "char \<Rightarrow> bool" where
  "isspace c =
     (let n = (of_char c :: nat)
      in (9 \<le> n \<and> n \<le> 13) \<or> (28 \<le> n \<and> n \<le> 32) \<or> n = 133 \<or> n = 160)"

definition isdigit :: "char \<Rightarrow> bool" where
  "isdigit c = (let n = (of_char c :: nat) in 48 \<le> n \<and> n \<le> 57)"

definition ishex :: "char \<Rightarrow> bool" where
  "ishex c = (let n = (of_char c :: nat) in (48 \<le> n \<and> n \<le> 57) \<or> (97 \<le> n \<and> n \<le> 102))"

definition newline :: char where
  "newline = CHR 0x0A"

definition rstrip :: "string \<Rightarrow> string" where
  "rstrip s = rev (dropWhile isspace (rev s))"


section \<open>Regular expressions with Python's backtracking order\<close>

text \<open>
  The program is driven by regular expressions, all used through \<open>re.match\<close> (anchored at
  the start of the string, so a leading \<open>^\<close> adds nothing) and, once, through \<open>re.sub\<close>.
  The fragment they use: literals, the classes \<open>.\<close>, \<open>\d\<close>, \<open>\s\<close>, \<open>\S\<close> and
  \<open>[\da-f]\<close>, a class repeated greedily or lazily (\<open>*\<close>, \<open>+\<close>, \<open>*?\<close>, \<open>+?\<close>),
  sequence, alternation, named groups and \<open>$\<close>.

  \<open>rmatch r s\<close> lists every way \<open>r\<close> matches a prefix of \<open>s\<close>, in the order in which
  Python's backtracking matcher tries them; each entry holds the groups bound on that path
  and the unread rest of \<open>s\<close>. The match Python reports is the first entry.
\<close>

datatype cclass = Dot | Digit | Space | NonSpace | HexLower

fun in_class :: "cclass \<Rightarrow> char \<Rightarrow> bool" where
  "in_class Dot c = (c \<noteq> newline)"
| "in_class Digit c = isdigit c"
| "in_class Space c = isspace c"
| "in_class NonSpace c = (\<not> isspace c)"
| "in_class HexLower c = ishex c"

datatype greed = Greedy | Lazy

datatype regex =
    Empty
  | Chr char
  | Cls cclass
  | Rep greed nat cclass
  | Seq regex regex
  | Alt regex regex
  | Grp string regex
  | Eol

type_synonym groups = "(string \<times> string) list"

definition rep_counts :: "greed \<Rightarrow> nat \<Rightarrow> nat \<Rightarrow> nat list" where
  "rep_counts g lo hi = (case g of Lazy \<Rightarrow> [lo..<Suc hi] | Greedy \<Rightarrow> rev [lo..<Suc hi])"

fun rmatch :: "regex \<Rightarrow> string \<Rightarrow> (groups \<times> string) list" where
  "rmatch Empty s = [([], s)]"
| "rmatch (Chr c) s = (case s of [] \<Rightarrow> [] | x # xs \<Rightarrow> if x = c then [([], xs)] else [])"
| "rmatch (Cls k) s = (case s of [] \<Rightarrow> [] | x # xs \<Rightarrow> if in_class k x then [([], xs)] else [])"
| "rmatch (Rep g lo k) s =
     map (\<lambda>i. ([], drop i s)) (rep_counts g lo (length (takeWhile (in_class k) s)))"
| "rmatch (Seq a b) s =
     concat (map (\<lambda>(ga, ra). map (\<lambda>(gb, rb). (ga @ gb, rb)) (rmatch b ra)) (rmatch a s))"
| "rmatch (Alt a b) s = rmatch a s @ rmatch b s"
| "rmatch (Grp name a) s =
     map (\<lambda>(ga, ra). ((name, take (length s - length ra) s) # ga, ra)) (rmatch a s)"
| "rmatch Eol s = (if s = [] \<or> s = [newline] then [([], s)] else [])"

text \<open>\<open>re.match(r, s)\<close>: the groups of the first match, or \<open>None\<close>.\<close>

definition re_match :: "regex \<Rightarrow> string \<Rightarrow> groups option" where
  "re_match r s = (case rmatch r s of [] \<Rightarrow> None | (g, rest) # other \<Rightarrow> Some g)"

text \<open>\<open>match.groupdict()[name]\<close>; every named group of the patterns below takes part in
  every match of its pattern, so the value is always a string.\<close>

definition groupdict :: "groups \<Rightarrow> string \<Rightarrow> string" where
  "groupdict g name = (case map_of g name of Some v \<Rightarrow> v | None \<Rightarrow> [])"

fun seqs :: "regex list \<Rightarrow> regex" where
  "seqs [] = Empty"
| "seqs [r] = r"
| "seqs (r # rs) = Seq r (seqs rs)"

definition Lit :: "string \<Rightarrow> regex" where
  "Lit s = seqs (map Chr s)"

text \<open>
  \<open>re.sub(r, repl, s)\<close> for a pattern that never matches the empty string (the only one
  substituted here needs three characters): scan from the left, replace the first match
  found at the current position and go on behind it, else keep the character.
\<close>

definition match_length :: "regex \<Rightarrow> string \<Rightarrow> nat" where
  "match_length r s = (case rmatch r s of [] \<Rightarrow> 0 | (g, rest) # other \<Rightarrow> length s - length rest)"

function re_sub :: "regex \<Rightarrow> string \<Rightarrow> string \<Rightarrow> string" where
  "re_sub r repl [] = []"
| "re_sub r repl (c # cs) =
     (if 0 < match_length r (c # cs)
      then repl @ re_sub r repl (drop (match_length r (c # cs)) (c # cs))
      else c # re_sub r repl cs)"
  by pat_completeness auto
termination
  by (relation "measure (\<lambda>(r, repl, s). length s)") auto


section \<open>The stack trace: \<open>_sanitizer_section_part_stack_trace.py\<close>\<close>

datatype error = AssertionError | AttributeError | IndexError

text \<open>\<^verbatim>\<open>^\s*#\d+ (0x[\da-f]+ in|)\s*(?P<key>.*/ros2.*)\s*$\<close>\<close>

definition FIND_KEY_REGEX :: regex where
  "FIND_KEY_REGEX =
     seqs [Rep Greedy 0 Space, Chr CHR ''#'', Rep Greedy 1 Digit, Chr CHR '' '',
           Alt (seqs [Lit ''0x'', Rep Greedy 1 HexLower, Lit '' in'']) Empty,
           Rep Greedy 0 Space,
           Grp ''key'' (seqs [Rep Greedy 0 Dot, Lit ''/ros2'', Rep Greedy 0 Dot]),
           Rep Greedy 0 Space, Eol]"

text \<open>\<^verbatim>\<open>0x[\da-f]+\<close>\<close>

definition FIND_KEY_SUB_REGEX :: regex where
  "FIND_KEY_SUB_REGEX = seqs [Lit ''0x'', Rep Greedy 1 HexLower]"

record stack_trace =
  key :: string

text \<open>The \<open>for\<close> loop of the constructor; \<open>None\<close> is the \<open>key\<close> still unset at its end.\<close>

fun find_key :: "string list \<Rightarrow> string option" where
  "find_key [] = None"
| "find_key (line # lines) =
     (case re_match FIND_KEY_REGEX line of
        Some g \<Rightarrow> Some (re_sub FIND_KEY_SUB_REGEX ''0xX'' (groupdict g ''key''))
      | None \<Rightarrow> find_key lines)"

definition SanitizerSectionPartStackTrace :: "string list \<Rightarrow> error + stack_trace" where
  "SanitizerSectionPartStackTrace lines =
     (case find_key lines of
        None \<Rightarrow> Inl AssertionError
      | Some k \<Rightarrow> Inr \<lparr>key = k\<rparr>)"


section \<open>The section part: \<open>_sanitizer_section_part.py\<close>\<close>

text \<open>\<^verbatim>\<open>^\s+(Read|Write) of size \d+ at 0x[\da-f]+ .*$\<close>\<close>

definition DATA_RACE_BEGIN_1 :: regex where
  "DATA_RACE_BEGIN_1 =
     seqs [Rep Greedy 1 Space, Alt (Lit ''Read'') (Lit ''Write''), Lit '' of size '',
           Rep Greedy 1 Digit, Lit '' at 0x'', Rep Greedy 1 HexLower, Chr CHR '' '',
           Rep Greedy 0 Dot, Eol]"

text \<open>\<^verbatim>\<open>^\s+Previous (read|write) of size \d+ at 0x[\da-f]+ .*$\<close>\<close>

definition DATA_RACE_BEGIN_2 :: regex where
  "DATA_RACE_BEGIN_2 =
     seqs [Rep Greedy 1 Space, Lit ''Previous '', Alt (Lit ''read'') (Lit ''write''),
           Lit '' of size '', Rep Greedy 1 Digit, Lit '' at 0x'', Rep Greedy 1 HexLower,
           Chr CHR '' '', Rep Greedy 0 Dot, Eol]"

text \<open>\<^verbatim>\<open>^Direct leak of \d+ byte\(s\) in \d+ object\(s\) allocated from:$\<close>\<close>

definition DIRECT_LEAK_BEGIN :: regex where
  "DIRECT_LEAK_BEGIN =
     seqs [Lit ''Direct leak of '', Rep Greedy 1 Digit, Lit '' byte(s) in '',
           Rep Greedy 1 Digit, Lit '' object(s) allocated from:'', Eol]"

text \<open>\<^verbatim>\<open>^\s+Mutex M\d+ acquired here while holding mutex M\d+ in .*$\<close>\<close>

definition LOCK_ORDER_BEGIN :: regex where
  "LOCK_ORDER_BEGIN =
     seqs [Rep Greedy 1 Space, Lit ''Mutex M'', Rep Greedy 1 Digit,
           Lit '' acquired here while holding mutex M'', Rep Greedy 1 Digit, Lit '' in '',
           Rep Greedy 0 Dot, Eol]"

text \<open>\<^verbatim>\<open>^.*$\<close>, the pattern of every error name the table does not list.\<close>

definition ANY_LINE :: regex where
  "ANY_LINE = seqs [Rep Greedy 0 Dot, Eol]"

text \<open>The lookup in the \<open>ChainMap\<close>: the table first, the \<open>defaultdict\<close> behind it.\<close>

definition FIND_RELEVANT_STACK_TRACE_BEGIN_REGEXES_BY_ERROR_NAME :: "string \<Rightarrow> regex list" where
  "FIND_RELEVANT_STACK_TRACE_BEGIN_REGEXES_BY_ERROR_NAME error_name =
     (if error_name = ''data race'' then [DATA_RACE_BEGIN_1, DATA_RACE_BEGIN_2]
      else if error_name = ''detected memory leaks'' then [DIRECT_LEAK_BEGIN]
      else if error_name = ''lock-order-inversion'' then [LOCK_ORDER_BEGIN, LOCK_ORDER_BEGIN]
      else [ANY_LINE])"

text \<open>\<^verbatim>\<open>^\s*#\d+\s+.*$\<close>\<close>

definition FIND_STACK_TRACE_LINE_REGEX :: regex where
  "FIND_STACK_TRACE_LINE_REGEX =
     seqs [Rep Greedy 0 Space, Chr CHR ''#'', Rep Greedy 1 Digit, Rep Greedy 1 Space,
           Rep Greedy 0 Dot, Eol]"

text \<open>
  The second half of the loop body: the line is tried against the begin pattern at index
  \<open>len(relevant_stack_traces)\<close>; a match sets \<open>relevant_stack_trace_lines\<close> to the empty
  list, otherwise it stays \<open>None\<close>. An index out of range would raise.
\<close>

definition begin_check :: "regex list \<Rightarrow> 'a list \<Rightarrow> string \<Rightarrow> error + string list option" where
  "begin_check regexes traces line =
     (if length traces < length regexes
      then Inr (if re_match (regexes ! length traces) line \<noteq> None then Some [] else None)
      else Inl IndexError)"

text \<open>
  The \<open>for\<close> loop of the constructor, with its two variables \<open>relevant_stack_traces\<close> and
  \<open>relevant_stack_trace_lines\<close> as arguments and as result. The constructor of the stack
  trace is the parameter \<open>mk\<close>, so that the line sequences the loop hands over can be
  observed; \<open>break\<close> returns at once.
\<close>

fun part_loop ::
  "(string list \<Rightarrow> error + 'a) \<Rightarrow> regex list \<Rightarrow> string list \<Rightarrow> 'a list \<Rightarrow> string list option
     \<Rightarrow> error + ('a list \<times> string list option)" where
  "part_loop mk regexes [] traces cur = Inr (traces, cur)"
| "part_loop mk regexes (line # lines) traces None =
     (case begin_check regexes traces line of
        Inl e \<Rightarrow> Inl e
      | Inr cur' \<Rightarrow> part_loop mk regexes lines traces cur')"
| "part_loop mk regexes (line # lines) traces (Some trace_lines) =
     (if re_match FIND_STACK_TRACE_LINE_REGEX line \<noteq> None
      then part_loop mk regexes lines traces (Some (trace_lines @ [line]))
      else (case mk trace_lines of
              Inl e \<Rightarrow> Inl e
            | Inr t \<Rightarrow>
                if length (traces @ [t]) = length regexes then Inr (traces @ [t], None)
                else (case begin_check regexes (traces @ [t]) line of
                        Inl e \<Rightarrow> Inl e
                      | Inr cur' \<Rightarrow> part_loop mk regexes lines (traces @ [t]) cur')))"

text \<open>The loop, then the trace still open at the end of the part if it has any line.\<close>

definition part_traces ::
  "(string list \<Rightarrow> error + 'a) \<Rightarrow> string \<Rightarrow> string list \<Rightarrow> error + 'a list" where
  "part_traces mk error_name lines =
     (case part_loop mk (FIND_RELEVANT_STACK_TRACE_BEGIN_REGEXES_BY_ERROR_NAME error_name)
             lines [] None of
        Inl e \<Rightarrow> Inl e
      | Inr (traces, None) \<Rightarrow> Inr traces
      | Inr (traces, Some trace_lines) \<Rightarrow>
          if trace_lines \<noteq> []
          then (case mk trace_lines of Inl e \<Rightarrow> Inl e | Inr t \<Rightarrow> Inr (traces @ [t]))
          else Inr traces)"

record section_part =
  relevant_stack_traces :: "stack_trace list"

definition SanitizerSectionPart :: "string \<Rightarrow> string list \<Rightarrow> error + section_part" where
  "SanitizerSectionPart error_name lines =
     (case part_traces SanitizerSectionPartStackTrace error_name lines of
        Inl e \<Rightarrow> Inl e
      | Inr traces \<Rightarrow> Inr \<lparr>relevant_stack_traces = traces\<rparr>)"


section \<open>The section: \<open>_sanitizer_section.py\<close>\<close>

text \<open>\<^verbatim>\<open>^.*Sanitizer: (?P<error_name>.+?)( \(| 0x[\da-f]+|\s*$)\<close>\<close>

definition FIND_ERROR_NAME_REGEX :: regex where
  "FIND_ERROR_NAME_REGEX =
     seqs [Rep Greedy 0 Dot, Lit ''Sanitizer: '', Grp ''error_name'' (Rep Lazy 1 Dot),
           Alt (Lit '' ('')
             (Alt (seqs [Lit '' 0x'', Rep Greedy 1 HexLower])
                  (seqs [Rep Greedy 0 Space, Eol]))]"

text \<open>\<^verbatim>\<open>^\S.*$\<close>\<close>

definition FIND_SECTION_PART_BEGIN_REGEX :: regex where
  "FIND_SECTION_PART_BEGIN_REGEX = seqs [Cls NonSpace, Rep Greedy 0 Dot, Eol]"

record sanitizer_section =
  error_name :: string
  parts :: "section_part list"

text \<open>\<open>lines[0]\<close> raises on an empty tuple; \<open>groupdict\<close> of no match raises.\<close>

definition find_error_name :: "string list \<Rightarrow> error + string" where
  "find_error_name lines =
     (case lines of
        [] \<Rightarrow> Inl IndexError
      | header # other \<Rightarrow>
          (case re_match FIND_ERROR_NAME_REGEX header of
             None \<Rightarrow> Inl AttributeError
           | Some g \<Rightarrow> Inr (groupdict g ''error_name'')))"

text \<open>The \<open>for\<close> loop over the lines, with \<open>part_lines\<close> and \<open>sub_sections\<close>; its
  \<open>else\<close> branch, which always runs (the loop has no \<open>break\<close>), closes the last part.\<close>

fun section_loop ::
  "string \<Rightarrow> string list \<Rightarrow> string list \<Rightarrow> section_part list \<Rightarrow> error + section_part list" where
  "section_loop name [] part_lines sub_sections =
     (case SanitizerSectionPart name part_lines of
        Inl e \<Rightarrow> Inl e
      | Inr p \<Rightarrow> Inr (sub_sections @ [p]))"
| "section_loop name (line # lines) part_lines sub_sections =
     (if re_match FIND_SECTION_PART_BEGIN_REGEX line \<noteq> None \<and> part_lines \<noteq> []
      then (case SanitizerSectionPart name part_lines of
              Inl e \<Rightarrow> Inl e
            | Inr p \<Rightarrow> section_loop name lines [line] (sub_sections @ [p]))
      else section_loop name lines (part_lines @ [line]) sub_sections)"

definition SanitizerSection :: "string list \<Rightarrow> error + sanitizer_section" where
  "SanitizerSection lines =
     (case find_error_name lines of
        Inl e \<Rightarrow> Inl e
      | Inr name \<Rightarrow>
          (case section_loop name lines [] [] of
             Inl e \<Rightarrow> Inl e
           | Inr ps \<Rightarrow> Inr \<lparr>error_name = name, parts = ps\<rparr>))"


section \<open>The parser: \<open>sanitizer_log_parser.py\<close>\<close>

text \<open>\<^verbatim>\<open>^(?P<prefix>.*?)(==\d+==|)(WARNING|ERROR):.*Sanitizer:.*$\<close>\<close>

definition FIND_SECTION_START_LINE_REGEX :: regex where
  "FIND_SECTION_START_LINE_REGEX =
     seqs [Grp ''prefix'' (Rep Lazy 0 Dot),
           Alt (seqs [Lit ''=='', Rep Greedy 1 Digit, Lit ''=='']) Empty,
           Alt (Lit ''WARNING'') (Lit ''ERROR''), Chr CHR '':'', Rep Greedy 0 Dot,
           Lit ''Sanitizer:'', Rep Greedy 0 Dot, Eol]"

text \<open>\<^verbatim>\<open>^(?P<prefix>.*?)(SUMMARY: .*Sanitizer: .*)$\<close>\<close>

definition FIND_SECTION_END_LINE_REGEX :: regex where
  "FIND_SECTION_END_LINE_REGEX =
     seqs [Grp ''prefix'' (Rep Lazy 0 Dot), Lit ''SUMMARY: '', Rep Greedy 0 Dot,
           Lit ''Sanitizer: '', Rep Greedy 0 Dot, Eol]"

text \<open>\<^verbatim>\<open>'^{prefix}(?P<line>.*)$'.format(prefix=re.escape(prefix))\<close>: the escaped prefix
  matches itself.\<close>

definition find_line_regex_of :: "string \<Rightarrow> regex" where
  "find_line_regex_of prefix = seqs [Lit prefix, Grp ''line'' (Rep Greedy 0 Dot), Eol]"

type_synonym output_primary_key = "string option \<times> string \<times> string"

text \<open>
  The two dictionaries keep their keys in insertion order, as Python's do: an assignment
  to a key already present keeps its place (\<^const>\<open>AList.update\<close>), a new key goes to the
  end. Compiled patterns compare by their pattern text, so the pending sections are keyed
  by the pattern itself.
\<close>

record parser =
  count_by_output_primary_key :: "(output_primary_key \<times> int) list"
  package :: "string option"
  lines_by_find_line_regex :: "(regex \<times> string list) list"

definition SanitizerLogParser :: parser where
  "SanitizerLogParser =
     \<lparr>count_by_output_primary_key = [], package = None, lines_by_find_line_regex = []\<rparr>"

definition set_package :: "parser \<Rightarrow> string option \<Rightarrow> parser" where
  "set_package self p = self\<lparr>package := p\<rparr>"

text \<open>\<open>counts[k] += 1\<close> on a \<open>defaultdict(int)\<close>.\<close>

definition increment ::
  "output_primary_key \<Rightarrow> (output_primary_key \<times> int) list \<Rightarrow> (output_primary_key \<times> int) list"
  where
  "increment k counts =
     AList.update k ((case map_of counts k of None \<Rightarrow> 0 | Some n \<Rightarrow> n) + 1) counts"

text \<open>The keys of a section in the order of the two nested loops over parts and traces.\<close>

definition section_keys :: "string option \<Rightarrow> sanitizer_section \<Rightarrow> output_primary_key list" where
  "section_keys pkg sec =
     concat (map (\<lambda>part. map (\<lambda>t. (pkg, error_name sec, key t)) (relevant_stack_traces part))
                 (parts sec))"

text \<open>
  The loop over the pending sections, on the items of the dictionary as they are when the
  loop starts. A raise leaves the parser as it is at that moment, which is returned beside
  the error.
\<close>

fun route ::
  "parser \<Rightarrow> string \<Rightarrow> (regex \<times> string list) list \<Rightarrow> (error \<times> parser) + parser" where
  "route self line [] = Inr self"
| "route self line ((find_line_regex, lines) # items) =
     (case re_match find_line_regex line of
        None \<Rightarrow> route self line items
      | Some g \<Rightarrow>
          (let lines' = lines @ [groupdict g ''line''];
               self' = self\<lparr>lines_by_find_line_regex :=
                         AList.update find_line_regex lines' (lines_by_find_line_regex self)\<rparr>
           in if re_match FIND_SECTION_END_LINE_REGEX line \<noteq> None
              then (case SanitizerSection lines' of
                      Inl e \<Rightarrow> Inl (e, self')
                    | Inr sec \<Rightarrow>
                        Inr (self'\<lparr>count_by_output_primary_key :=
                                     fold increment (section_keys (package self') sec)
                                       (count_by_output_primary_key self'),
                                   lines_by_find_line_regex :=
                                     AList.delete find_line_regex
                                       (lines_by_find_line_regex self')\<rparr>))
              else Inr self'))"

definition register_start :: "parser \<Rightarrow> string \<Rightarrow> parser" where
  "register_start self line =
     (case re_match FIND_SECTION_START_LINE_REGEX line of
        None \<Rightarrow> self
      | Some g \<Rightarrow>
          self\<lparr>lines_by_find_line_regex :=
                 AList.update (find_line_regex_of (groupdict g ''prefix'')) []
                   (lines_by_find_line_regex self)\<rparr>)"

definition add_line :: "parser \<Rightarrow> string \<Rightarrow> (error \<times> parser) + parser" where
  "add_line self line =
     (let self' = register_start self (rstrip line)
      in route self' (rstrip line) (lines_by_find_line_regex self'))"

text \<open>Feeding a list of lines; the first raise ends it, as it ends the caller's loop.\<close>

fun add_lines :: "parser \<Rightarrow> string list \<Rightarrow> (error \<times> parser) + parser" where
  "add_lines self [] = Inr self"
| "add_lines self (line # lines) =
     (case add_line self line of
        Inl e \<Rightarrow> Inl e
      | Inr self' \<Rightarrow> add_lines self' lines)"

text \<open>
  The \<open>csv\<close> property hands these rows to \<open>csv.writer\<close>, the header first; the writer's
  text is the library's and is not modelled. The property is returned with the parser it
  leaves behind.
\<close>

datatype cell = Str string | NoneCell | Num int

definition key_cells :: "output_primary_key \<Rightarrow> cell list" where
  "key_cells k =
     (case k of (pkg, name, stk) \<Rightarrow>
        [case pkg of None \<Rightarrow> NoneCell | Some p \<Rightarrow> Str p, Str name, Str stk])"

definition csv :: "parser \<Rightarrow> cell list list \<times> parser" where
  "csv self =
     ([Str ''package'', Str ''error_name'', Str ''stack_trace_key'', Str ''count'']
        # map (\<lambda>(k, n). key_cells k @ [Num n]) (count_by_output_primary_key self),
      self)"


section \<open>Observations used to state the properties\<close>

text \<open>The count the report holds for a key; a key that is absent counts as zero.\<close>

definition count_of :: "(output_primary_key \<times> int) list \<Rightarrow> output_primary_key \<Rightarrow> int" where
  "count_of counts k = (case map_of counts k of None \<Rightarrow> 0 | Some n \<Rightarrow> n)"


text \<open>
  \<open>rests r s\<close> is what \<open>rmatch r s\<close> leaves unread, without the order and the groups;
  \<open>matches r s\<close> says that \<open>re.match(r, s)\<close> is not \<open>None\<close>.
\<close>

definition rests :: "regex \<Rightarrow> string \<Rightarrow> string set" where
  "rests r s = snd ` set (rmatch r s)"

definition matches :: "regex \<Rightarrow> string \<Rightarrow> bool" where
  "matches r s = (re_match r s \<noteq> None)"

text \<open>A line that continues a section part: it is empty or starts with white space.\<close>

definition indented :: "string \<Rightarrow> bool" where
  "indented line = (case line of [] \<Rightarrow> True | c # rest \<Rightarrow> isspace c)"


text \<open>A pattern without a group binds no group.\<close>

fun group_free :: "regex \<Rightarrow> bool" where
  "group_free (Grp n a) = False"
| "group_free (Seq a b) = (group_free a \<and> group_free b)"
| "group_free (Alt a b) = (group_free a \<and> group_free b)"
| "group_free r = True"

text \<open>
  The last component of \<^const>\<open>FIND_ERROR_NAME_REGEX\<close>: \<^verbatim>\<open>( \(| 0x[\da-f]+|\s*$)\<close>, and
  what it matches: a space and an open parenthesis, a space and \<open>0x\<close> and a hexadecimal
  digit, or white space up to the end.
\<close>

definition ERROR_NAME_END :: regex where
  "ERROR_NAME_END =
     Alt (Lit '' ('')
       (Alt (seqs [Lit '' 0x'', Rep Greedy 1 HexLower])
            (seqs [Rep Greedy 0 Space, Eol]))"

definition name_end :: "string \<Rightarrow> bool" where
  "name_end v =
     (take 2 v = '' (''
      \<or> (take 3 v = '' 0x'' \<and> (case drop 3 v of [] \<Rightarrow> False | h # rest \<Rightarrow> ishex h))
      \<or> list_all isspace v)"

text \<open>
  \<open>name\<close> can be the error name found in the text \<open>u\<close> behind a marker: it is a prefix of
  \<open>u\<close>, not empty, without a line break, and what follows it is such an end.
\<close>

definition name_after :: "string \<Rightarrow> string \<Rightarrow> bool" where
  "name_after u name =
     (name \<noteq> [] \<and> newline \<notin> set name \<and> take (length name) u = name
      \<and> name_end (drop (length name) u))"

text \<open>
  Following the words of the claim on the error name, to be compared with the pattern: the
  text behind the first \<open>Sanitizer: \<close>, up to the first open parenthesis, the first
  address (a \<open>0x\<close> and a hexadecimal digit) or the end of the line.
\<close>

definition address_at :: "string \<Rightarrow> bool" where
  "address_at s = (take 2 s = ''0x'' \<and> (case drop 2 s of [] \<Rightarrow> False | h # rest \<Rightarrow> ishex h))"

fun after_marker :: "string \<Rightarrow> string option" where
  "after_marker [] = None"
| "after_marker (c # cs) =
     (if take 11 (c # cs) = ''Sanitizer: '' then Some (drop 11 (c # cs)) else after_marker cs)"

fun until_paren_or_address :: "string \<Rightarrow> string" where
  "until_paren_or_address [] = []"
| "until_paren_or_address (c # cs) =
     (if c = CHR ''('' \<or> address_at (c # cs) then [] else c # until_paren_or_address cs)"

definition claimed_error_name :: "string \<Rightarrow> string option" where
  "claimed_error_name header = map_option until_paren_or_address (after_marker header)"


section \<open>The aggregate counts\<close>

lemma count_of_increment:
  "count_of (increment k c) k' = count_of c k' + (if k = k' then 1 else 0)"
  by (simp add: count_of_def increment_def update_conv')

lemma count_of_fold_increment:
  "count_of (fold increment ks c) k' = count_of c k' + int (count_list ks k')"
  by (induction ks arbitrary: c) (auto simp: count_of_increment)

lemma keys_increment:
  "map fst (increment k c) = (if k \<in> set (map fst c) then map fst c else map fst c @ [k])"
  by (simp add: increment_def update_keys)

lemma set_keys_increment:
  "fst ` set (increment k c) = insert k (fst ` set c)"
  by (simp add: increment_def dom_update)

lemma set_keys_fold_increment:
  "fst ` set (fold increment ks c) = fst ` set c \<union> set ks"
  by (induction ks arbitrary: c) (simp_all add: set_keys_increment)

lemma keys_fold_increment_present:
  "set ks \<subseteq> fst ` set c \<Longrightarrow> map fst (fold increment ks c) = map fst c"
proof (induction ks arbitrary: c)
  case Nil
  then show ?case by simp
next
  case (Cons k ks)
  have eq: "map fst (increment k c) = map fst c"
    using Cons.prems by (simp add: keys_increment)
  then have "fst ` set (increment k c) = fst ` set c"
    by (metis list.set_map)
  with Cons.prems have "set ks \<subseteq> fst ` set (increment k c)" by simp
  from Cons.IH [OF this] eq show ?case by simp
qed

lemma distinct_increment:
  "distinct (map fst c) \<Longrightarrow> distinct (map fst (increment k c))"
  by (simp add: increment_def distinct_update)

lemma distinct_fold_increment:
  "distinct (map fst c) \<Longrightarrow> distinct (map fst (fold increment ks c))"
  by (induction ks arbitrary: c) (auto simp: distinct_increment)

section \<open>Frame of \<open>set_package\<close> and \<open>csv\<close>\<close>

text \<open>
  Claim C10. \<open>set_package(p)\<close> sets the package and leaves the counts and every pending
  section as they are; reading \<open>csv\<close> leaves the whole parser as it is (the property
  walks \<open>items()\<close> of the counts, which adds no key).
\<close>

theorem set_package_and_csv_frame:
  "count_by_output_primary_key (set_package self p) = count_by_output_primary_key self
   \<and> lines_by_find_line_regex (set_package self p) = lines_by_find_line_regex self
   \<and> package (set_package self p) = p
   \<and> snd (csv self) = self"
  by (simp add: set_package_def csv_def)


section \<open>The key comes from the first in-codebase line\<close>

lemma find_key_first_match:
  assumes "\<forall>x\<in>set pre. re_match FIND_KEY_REGEX x = None"
    and "re_match FIND_KEY_REGEX l = Some g"
  shows "find_key (pre @ l # post) = Some (re_sub FIND_KEY_SUB_REGEX ''0xX'' (groupdict g ''key''))"
  using assms by (induction pre) simp_all

text \<open>
  Claim C6. When \<open>l\<close> is the first line of a stack trace that matches the in-codebase
  frame pattern, the stack trace has a key and it is the key of \<open>l\<close> alone: the lines
  after \<open>l\<close> can be changed, added or removed without changing it.
\<close>

theorem key_from_first_in_codebase_line:
  assumes "\<forall>x\<in>set pre. re_match FIND_KEY_REGEX x = None"
    and "re_match FIND_KEY_REGEX l \<noteq> None"
  shows "SanitizerSectionPartStackTrace (pre @ l # post) = SanitizerSectionPartStackTrace [l]
         \<and> SanitizerSectionPartStackTrace (pre @ l # post)
             = SanitizerSectionPartStackTrace (pre @ l # post')
         \<and> (\<exists>t. SanitizerSectionPartStackTrace (pre @ l # post) = Inr t)"
proof -
  from assms(2) obtain g where g: "re_match FIND_KEY_REGEX l = Some g" by blast
  have a: "find_key (pre @ l # post) = Some (re_sub FIND_KEY_SUB_REGEX ''0xX'' (groupdict g ''key''))"
    by (rule find_key_first_match [OF assms(1) g])
  have b: "find_key (pre @ l # post') = Some (re_sub FIND_KEY_SUB_REGEX ''0xX'' (groupdict g ''key''))"
    by (rule find_key_first_match [OF assms(1) g])
  have c: "find_key [l] = Some (re_sub FIND_KEY_SUB_REGEX ''0xX'' (groupdict g ''key''))"
    using g by simp
  show ?thesis unfolding SanitizerSectionPartStackTrace_def a b c by simp
qed

theorem key_from_first_in_codebase_line_witness:
  "SanitizerSectionPartStackTrace (['' #0 a 0x1''] @ '' #1 /ros2/b'' # [])
     = SanitizerSectionPartStackTrace ['' #1 /ros2/b'']
   \<and> SanitizerSectionPartStackTrace (['' #0 a 0x1''] @ '' #1 /ros2/b'' # [])
     = SanitizerSectionPartStackTrace (['' #0 a 0x1''] @ '' #1 /ros2/b'' # ['' #2 /ros2/c''])
   \<and> (\<exists>t. SanitizerSectionPartStackTrace (['' #0 a 0x1''] @ '' #1 /ros2/b'' # []) = Inr t)"
proof -
  have h1: "\<forall>x\<in>set ['' #0 a 0x1'']. re_match FIND_KEY_REGEX x = None" by code_simp
  have h2: "re_match FIND_KEY_REGEX '' #1 /ros2/b'' \<noteq> None" by code_simp
  show ?thesis by (rule key_from_first_in_codebase_line [OF h1 h2])
qed

section \<open>The dictionary of pending sections\<close>

lemma update_first_entry:
  "rx \<notin> fst ` set before \<Longrightarrow>
   AList.update rx v (before @ (rx, b) # after) = before @ (rx, v) # after"
  by (induction before) auto

lemma delete_only_entry:
  "rx \<notin> fst ` set before \<Longrightarrow> rx \<notin> fst ` set after \<Longrightarrow>
   AList.delete rx (before @ (rx, v) # after) = before @ after"
proof (induction before)
  case Nil
  then have "AList.delete rx after = after" by (simp add: rev_image_eqI)
  then show ?case by simp
next
  case (Cons a before)
  then show ?case by (cases a) auto
qed

lemma route_skips:
  "\<forall>p\<in>set before. re_match (fst p) line = None \<Longrightarrow>
   route self line (before @ items) = route self line items"
  by (induction before) auto

lemma route_no_match:
  "\<forall>p\<in>set items. re_match (fst p) line = None \<Longrightarrow> route self line items = Inr self"
  using route_skips [of items line self "[]"] by simp

lemma distinct_register_start:
  "distinct (map fst (lines_by_find_line_regex self)) \<Longrightarrow>
   distinct (map fst (lines_by_find_line_regex (register_start self l)))"
  by (simp add: register_start_def distinct_update split: option.splits)

section \<open>Stack traces closed with no line\<close>

text \<open>
  Claim C5 at a part whose first line is followed by a line that is no stack frame (here
  an empty line), under an error name the table does not list: the loop closes the trace
  it has just opened and hands the empty sequence to the constructor of the stack trace,
  whose assertion then fails. The first equation records the sequences handed over.
\<close>

theorem empty_trace_handed_over:
  "part_traces Inr ''SEGV'' [''ERROR: ASanitizer: SEGV'', ''''] = Inr [[]]
   \<and> SanitizerSectionPart ''SEGV'' [''ERROR: ASanitizer: SEGV'', ''''] = Inl AssertionError
   \<and> add_lines (set_package SanitizerLogParser (Some ''p''))
        [''ERROR: ASanitizer: SEGV'', '''', ''SUMMARY: ASanitizer: SEGV'']
      = Inl (AssertionError,
          \<lparr>count_by_output_primary_key = [], package = Some ''p'',
           lines_by_find_line_regex =
             [(find_line_regex_of '''',
               [''ERROR: ASanitizer: SEGV'', '''', ''SUMMARY: ASanitizer: SEGV''])]\<rparr>)"
  by code_simp

section \<open>What a pattern leaves unread\<close>

lemma matches_rests: "matches r s \<longleftrightarrow> rests r s \<noteq> {}"
  by (auto simp: matches_def re_match_def rests_def split: list.splits)

lemma re_match_None_rests: "re_match r s = None \<longleftrightarrow> rests r s = {}"
  using matches_rests [of r s] by (auto simp: matches_def)

lemma in_class_Space_eq: "in_class Space = isspace"
  by (rule ext) simp

lemma rests_Empty [simp]: "rests Empty s = {s}"
  by (simp add: rests_def)

lemma rests_Chr [simp]: "rests (Chr c) s = {xs. s = c # xs}"
  by (auto simp: rests_def split: list.splits)

lemma rests_Cls [simp]: "rests (Cls k) s = {xs. \<exists>x. s = x # xs \<and> in_class k x}"
  by (auto simp: rests_def split: list.splits)

lemma set_rep_counts: "set (rep_counts g lo hi) = {i. lo \<le> i \<and> i \<le> hi}"
  by (cases g) (auto simp: rep_counts_def)

lemma rests_Rep:
  "rests (Rep g lo k) s = {drop i s | i. lo \<le> i \<and> i \<le> length (takeWhile (in_class k) s)}"
  by (auto simp: rests_def set_rep_counts image_iff)

lemma rests_Seq [simp]: "rests (Seq a b) s = (\<Union>r\<in>rests a s. rests b r)"
  by (simp add: rests_def image_UN image_image case_prod_beta)

lemma rests_Alt [simp]: "rests (Alt a b) s = rests a s \<union> rests b s"
  by (auto simp: rests_def)

lemma rests_Grp [simp]: "rests (Grp n a) s = rests a s"
  by (simp add: rests_def image_image case_prod_beta)

lemma rests_Eol [simp]: "rests Eol s = (if s = [] \<or> s = [newline] then {s} else {})"
  by (simp add: rests_def)

lemma rests_seqs_Cons: "rests (seqs (r # rs)) s = (\<Union>x\<in>rests r s. rests (seqs rs) x)"
  by (cases rs) simp_all

lemma rests_Lit: "rests (Lit w) s = {r. s = w @ r}"
proof (induction w arbitrary: s)
  case Nil
  then show ?case by (auto simp: Lit_def)
next
  case (Cons c w)
  have "rests (Lit (c # w)) s = (\<Union>x\<in>rests (Chr c) s. rests (Lit w) x)"
    unfolding Lit_def by (simp add: rests_seqs_Cons del: seqs.simps)
  then show ?case using Cons by auto
qed

lemma rep_stops_at_char:
  assumes "\<not> in_class k c" and "i \<le> length (takeWhile (in_class k) s)"
    and "drop i s = c # rest"
  shows "i = length (takeWhile (in_class k) s) \<and> dropWhile (in_class k) s = c # rest"
proof -
  have "\<not> i < length (takeWhile (in_class k) s)"
  proof
    assume lt: "i < length (takeWhile (in_class k) s)"
    then have "takeWhile (in_class k) s ! i = s ! i" by (rule takeWhile_nth)
    moreover have "takeWhile (in_class k) s ! i \<in> set (takeWhile (in_class k) s)"
      using lt by simp
    ultimately have "in_class k (s ! i)" by (metis set_takeWhileD)
    moreover have "i < length s" using lt length_takeWhile_le [of "in_class k" s] by simp
    then have "s ! i = c" using assms(3) by (metis hd_drop_conv_nth list.sel(1))
    ultimately show False using assms(1) by simp
  qed
  with assms(2) have "i = length (takeWhile (in_class k) s)" by simp
  then show ?thesis using assms(3) by (simp add: dropWhile_eq_drop)
qed

lemma rests_Rep_Chr:
  assumes "\<not> in_class k c" and "rests (Seq (Rep g lo k) (Seq (Chr c) r)) s \<noteq> {}"
  shows "\<exists>rest. dropWhile (in_class k) s = c # rest
           \<and> lo \<le> length (takeWhile (in_class k) s)"
proof -
  from assms(2) obtain i rest where i: "lo \<le> i" "i \<le> length (takeWhile (in_class k) s)"
    and d: "drop i s = c # rest"
    by (auto simp: rests_Rep)
  from rep_stops_at_char [OF assms(1) i(2) d] i(1) show ?thesis by auto
qed

lemma seqs_Rep_Chr_first:
  assumes "\<not> in_class k c" and "rests (seqs (Rep g lo k # Chr c # rs)) s \<noteq> {}"
  shows "\<exists>rest. dropWhile (in_class k) s = c # rest
           \<and> lo \<le> length (takeWhile (in_class k) s) \<and> rests (seqs rs) rest \<noteq> {}"
proof -
  from assms(2) obtain x where x: "x \<in> rests (Rep g lo k) s" "rests (seqs (Chr c # rs)) x \<noteq> {}"
    by (auto simp: rests_seqs_Cons simp del: seqs.simps)
  from x(2) obtain rest where r: "x = c # rest" "rests (seqs rs) rest \<noteq> {}"
    by (auto simp: rests_seqs_Cons simp del: seqs.simps)
  from x(1) obtain i where i: "lo \<le> i" "i \<le> length (takeWhile (in_class k) s)" "x = drop i s"
    by (auto simp: rests_Rep)
  have "drop i s = c # rest" using i(3) r(1) by simp
  from rep_stops_at_char [OF assms(1) i(2) this] i(1) r(2) show ?thesis by blast
qed

lemma seqs_Lit_first:
  assumes "rests (seqs (Lit w # rs)) s \<noteq> {}"
  shows "\<exists>rest. s = w @ rest \<and> rests (seqs rs) rest \<noteq> {}"
  using assms by (auto simp: rests_seqs_Cons rests_Lit simp del: seqs.simps)

lemma seqs_Rep_Lit_first:
  assumes "\<not> in_class k c" and "rests (seqs (Rep g lo k # Lit (c # w) # rs)) s \<noteq> {}"
  shows "\<exists>rest. dropWhile (in_class k) s = c # rest"
proof -
  from assms(2) obtain x where x: "x \<in> rests (Rep g lo k) s" "rests (seqs (Lit (c # w) # rs)) x \<noteq> {}"
    by (auto simp: rests_seqs_Cons simp del: seqs.simps)
  from seqs_Lit_first [OF x(2)] obtain rest where r: "x = c # (w @ rest)" by auto
  from x(1) obtain i where i: "lo \<le> i" "i \<le> length (takeWhile (in_class k) s)" "x = drop i s"
    by (auto simp: rests_Rep)
  have "drop i s = c # (w @ rest)" using i(3) r by simp
  from rep_stops_at_char [OF assms(1) i(2) this] show ?thesis by blast
qed


lemma frame_line_first_char:
  assumes "matches FIND_STACK_TRACE_LINE_REGEX s"
  shows "\<exists>rest. dropWhile isspace s = CHR ''#'' # rest"
proof -
  have n: "\<not> in_class Space CHR ''#''" by (simp add: isspace_def)
  from assms have "rests (seqs (Rep Greedy 0 Space # Chr CHR ''#'' #
       [Rep Greedy 1 Digit, Rep Greedy 1 Space, Rep Greedy 0 Dot, Eol])) s \<noteq> {}"
    unfolding matches_rests FIND_STACK_TRACE_LINE_REGEX_def .
  from seqs_Rep_Chr_first [OF n this]
  obtain rest where "dropWhile (in_class Space) s = CHR ''#'' # rest" by blast
  then show ?thesis by (simp add: in_class_Space_eq)
qed


lemma previous_line_first_char:
  assumes "matches DATA_RACE_BEGIN_2 s"
  shows "\<exists>rest. dropWhile isspace s = CHR ''P'' # rest"
proof -
  have n: "\<not> in_class Space CHR ''P''" by (simp add: isspace_def)
  from assms have "rests (seqs (Rep Greedy 1 Space # Lit (CHR ''P'' # ''revious '') #
       [Alt (Lit ''read'') (Lit ''write''),
           Lit '' of size '', Rep Greedy 1 Digit, Lit '' at 0x'', Rep Greedy 1 HexLower,
           Chr CHR '' '', Rep Greedy 0 Dot, Eol])) s \<noteq> {}"
    unfolding matches_rests DATA_RACE_BEGIN_2_def .
  from seqs_Rep_Lit_first [OF n this]
  obtain rest where "dropWhile (in_class Space) s = CHR ''P'' # rest" by blast
  then show ?thesis by (simp add: in_class_Space_eq)
qed

lemma previous_line_no_frame:
  assumes "matches DATA_RACE_BEGIN_2 s"
  shows "\<not> matches FIND_STACK_TRACE_LINE_REGEX s"
proof
  assume "matches FIND_STACK_TRACE_LINE_REGEX s"
  from frame_line_first_char [OF this] previous_line_first_char [OF assms]
  show False by auto
qed

lemma direct_leak_first_char:
  assumes "matches DIRECT_LEAK_BEGIN s"
  shows "\<exists>rest. s = CHR ''D'' # rest"
proof -
  from assms have "rests (seqs (Lit ''Direct leak of '' # [Rep Greedy 1 Digit, Lit '' byte(s) in '',
           Rep Greedy 1 Digit, Lit '' object(s) allocated from:'', Eol])) s \<noteq> {}"
    unfolding matches_rests DIRECT_LEAK_BEGIN_def .
  from seqs_Lit_first [OF this]
  obtain rest where "s = ''Direct leak of '' @ rest" by blast
  then show ?thesis by simp
qed

lemma part_begin_first_char:
  assumes "matches FIND_SECTION_PART_BEGIN_REGEX s"
  shows "\<exists>c rest. s = c # rest \<and> \<not> isspace c"
proof -
  from assms have "rests (seqs (Cls NonSpace # [Rep Greedy 0 Dot, Eol])) s \<noteq> {}"
    unfolding matches_rests FIND_SECTION_PART_BEGIN_REGEX_def .
  then obtain x where "x \<in> rests (Cls NonSpace) s"
    unfolding rests_seqs_Cons by blast
  then show ?thesis by auto
qed


section \<open>The loop over the lines of a part\<close>

lemma begin_check_miss:
  "length traces < length regexes \<Longrightarrow> \<not> matches (regexes ! length traces) line \<Longrightarrow>
   begin_check regexes traces line = Inr None"
  by (simp add: begin_check_def matches_def)

lemma begin_check_hit:
  "length traces < length regexes \<Longrightarrow> matches (regexes ! length traces) line \<Longrightarrow>
   begin_check regexes traces line = Inr (Some [])"
  by (simp add: begin_check_def matches_def)

lemma part_loop_skip:
  assumes "length traces < length regexes"
    and "\<forall>x\<in>set pre. \<not> matches (regexes ! length traces) x"
  shows "part_loop mk regexes (pre @ rest) traces None = part_loop mk regexes rest traces None"
  using assms(2)
proof (induction pre)
  case Nil
  then show ?case by simp
next
  case (Cons x pre)
  then have "begin_check regexes traces x = Inr None"
    using begin_check_miss [OF assms(1)] by simp
  with Cons show ?case by simp
qed

lemma part_loop_frames:
  "\<forall>x\<in>set fs. matches FIND_STACK_TRACE_LINE_REGEX x \<Longrightarrow>
   part_loop mk regexes (fs @ rest) traces (Some acc)
     = part_loop mk regexes rest traces (Some (acc @ fs))"
  by (induction fs arbitrary: acc) (simp_all add: matches_def)

lemma part_loop_begin:
  assumes "length traces < length regexes" and "matches (regexes ! length traces) line"
  shows "part_loop mk regexes (line # rest) traces None
           = part_loop mk regexes rest traces (Some [])"
  using begin_check_hit [OF assms] by simp

text \<open>The last trace of the table: closed by a line that is no frame, or by the end.\<close>

lemma part_loop_last_trace:
  assumes "Suc (length traces) = length regexes"
    and "rest = [] \<or> \<not> matches FIND_STACK_TRACE_LINE_REGEX (hd rest)"
    and "fs \<noteq> []"
  shows "(case part_loop mk regexes rest traces (Some fs) of
            Inl e \<Rightarrow> Inl e
          | Inr (ts, None) \<Rightarrow> Inr ts
          | Inr (ts, Some acc) \<Rightarrow>
              if acc \<noteq> [] then (case mk acc of Inl e \<Rightarrow> Inl e | Inr t \<Rightarrow> Inr (ts @ [t]))
              else Inr ts)
         = (case mk fs of Inl e \<Rightarrow> Inl e | Inr t \<Rightarrow> Inr (traces @ [t]))"
proof (cases rest)
  case Nil
  with assms(3) show ?thesis by simp
next
  case (Cons x xs)
  with assms(2) have "re_match FIND_STACK_TRACE_LINE_REGEX x = None"
    by (simp add: matches_def)
  with Cons assms(1) show ?thesis by (simp split: sum.splits)
qed

lemma part_traces_no_begin:
  assumes "\<forall>x\<in>set lines.
     \<not> matches (FIND_RELEVANT_STACK_TRACE_BEGIN_REGEXES_BY_ERROR_NAME name ! 0) x"
  shows "part_traces mk name lines = Inr []"
proof -
  let ?rx = "FIND_RELEVANT_STACK_TRACE_BEGIN_REGEXES_BY_ERROR_NAME name"
  have len: "length ([] :: 'a list) < length ?rx"
    by (simp add: FIND_RELEVANT_STACK_TRACE_BEGIN_REGEXES_BY_ERROR_NAME_def)
  have "part_loop mk ?rx (lines @ []) [] None = part_loop mk ?rx [] [] None"
    by (rule part_loop_skip [OF len]) (use assms in simp)
  then show ?thesis by (simp add: part_traces_def)
qed

lemma direct_leak_part:
  assumes d: "matches DIRECT_LEAK_BEGIN d"
    and fs: "fs \<noteq> []" "\<forall>x\<in>set fs. matches FIND_STACK_TRACE_LINE_REGEX x"
    and rest: "rest = [] \<or> \<not> matches FIND_STACK_TRACE_LINE_REGEX (hd rest)"
  shows "part_traces mk ''detected memory leaks'' (d # fs @ rest)
           = (case mk fs of Inl e \<Rightarrow> Inl e | Inr t \<Rightarrow> Inr [t])"
proof -
  let ?rx = "[DIRECT_LEAK_BEGIN]"
  have rx: "FIND_RELEVANT_STACK_TRACE_BEGIN_REGEXES_BY_ERROR_NAME ''detected memory leaks'' = ?rx"
    by (simp add: FIND_RELEVANT_STACK_TRACE_BEGIN_REGEXES_BY_ERROR_NAME_def)
  have a: "part_loop mk ?rx (d # fs @ rest) [] None = part_loop mk ?rx (fs @ rest) [] (Some [])"
    by (rule part_loop_begin) (use d in simp_all)
  have b: "part_loop mk ?rx (fs @ rest) [] (Some []) = part_loop mk ?rx rest [] (Some fs)"
    using part_loop_frames [OF fs(2), of mk ?rx rest "[]" "[]"] by simp
  have c: "(case part_loop mk ?rx rest [] (Some fs) of
            Inl e \<Rightarrow> Inl e
          | Inr (ts, None) \<Rightarrow> Inr ts
          | Inr (ts, Some acc) \<Rightarrow>
              if acc \<noteq> [] then (case mk acc of Inl e \<Rightarrow> Inl e | Inr t \<Rightarrow> Inr (ts @ [t]))
              else Inr ts)
         = (case mk fs of Inl e \<Rightarrow> Inl e | Inr t \<Rightarrow> Inr ([] @ [t]))"
    by (rule part_loop_last_trace [OF _ rest fs(1)]) simp
  show ?thesis unfolding part_traces_def rx a b using c by (cases "mk fs") simp_all
qed

lemma data_race_part:
  assumes pre: "\<forall>x\<in>set pre. \<not> matches DATA_RACE_BEGIN_1 x"
    and rw: "matches DATA_RACE_BEGIN_1 rw"
    and fr1: "fr1 \<noteq> []" "\<forall>x\<in>set fr1. matches FIND_STACK_TRACE_LINE_REGEX x"
    and mid: "mid = [] \<or> \<not> matches FIND_STACK_TRACE_LINE_REGEX (hd mid)"
             "\<forall>x\<in>set mid. \<not> matches DATA_RACE_BEGIN_2 x"
    and prev: "matches DATA_RACE_BEGIN_2 prev"
    and fr2: "fr2 \<noteq> []" "\<forall>x\<in>set fr2. matches FIND_STACK_TRACE_LINE_REGEX x"
    and post: "post = [] \<or> \<not> matches FIND_STACK_TRACE_LINE_REGEX (hd post)"
  shows "part_traces mk ''data race'' (pre @ rw # fr1 @ mid @ prev # fr2 @ post)
           = (case mk fr1 of
                Inl e \<Rightarrow> Inl e
              | Inr t1 \<Rightarrow> (case mk fr2 of Inl e \<Rightarrow> Inl e | Inr t2 \<Rightarrow> Inr [t1, t2]))"
proof -
  let ?rx = "[DATA_RACE_BEGIN_1, DATA_RACE_BEGIN_2]"
  let ?tail = "prev # fr2 @ post"
  have rx: "FIND_RELEVANT_STACK_TRACE_BEGIN_REGEXES_BY_ERROR_NAME ''data race'' = ?rx"
    by (simp add: FIND_RELEVANT_STACK_TRACE_BEGIN_REGEXES_BY_ERROR_NAME_def)
  have a: "part_loop mk ?rx (pre @ rw # fr1 @ mid @ ?tail) [] None
             = part_loop mk ?rx (rw # fr1 @ mid @ ?tail) [] None"
    by (rule part_loop_skip) (use pre in simp_all)
  have b: "part_loop mk ?rx (rw # fr1 @ mid @ ?tail) [] None
             = part_loop mk ?rx (fr1 @ mid @ ?tail) [] (Some [])"
    by (rule part_loop_begin) (use rw in simp_all)
  have c: "part_loop mk ?rx (fr1 @ mid @ ?tail) [] (Some [])
             = part_loop mk ?rx (mid @ ?tail) [] (Some fr1)"
    using part_loop_frames [OF fr1(2), of mk ?rx "mid @ ?tail" "[]" "[]"] by simp
  have nf: "\<not> matches FIND_STACK_TRACE_LINE_REGEX prev"
    by (rule previous_line_no_frame [OF prev])
  have e: "part_loop mk ?rx ?tail [t1] None = part_loop mk ?rx post [t1] (Some fr2)" for t1
  proof -
    have "part_loop mk ?rx ?tail [t1] None = part_loop mk ?rx (fr2 @ post) [t1] (Some [])"
      by (rule part_loop_begin) (use prev in simp_all)
    also have "\<dots> = part_loop mk ?rx post [t1] (Some fr2)"
      using part_loop_frames [OF fr2(2), of mk ?rx post "[t1]" "[]"] by simp
    finally show ?thesis .
  qed
  have d: "part_loop mk ?rx (mid @ ?tail) [] (Some fr1)
             = (case mk fr1 of Inl e \<Rightarrow> Inl e
                | Inr t1 \<Rightarrow> part_loop mk ?rx post [t1] (Some fr2))"
  proof (cases mid)
    case Nil
    have "begin_check ?rx [t1] prev = Inr (Some [])" for t1 :: 'a
      by (rule begin_check_hit) (use prev in simp_all)
    with Nil nf e show ?thesis
      by (simp add: matches_def split: sum.splits)
  next
    case (Cons m ms)
    with mid have m: "re_match FIND_STACK_TRACE_LINE_REGEX m = None"
      and ms: "\<forall>x\<in>set ms. \<not> matches DATA_RACE_BEGIN_2 x"
      and m2: "\<not> matches DATA_RACE_BEGIN_2 m"
      by (simp_all add: matches_def)
    have bc: "begin_check ?rx [t1] m = Inr None" for t1 :: 'a
      by (rule begin_check_miss) (use m2 in simp_all)
    have sk: "part_loop mk ?rx (ms @ ?tail) [t1] None = part_loop mk ?rx ?tail [t1] None" for t1
      by (rule part_loop_skip) (use ms in simp_all)
    show ?thesis
      unfolding Cons using m bc sk e by (simp split: sum.splits)
  qed
  have f: "(case part_loop mk ?rx post [t1] (Some fr2) of
            Inl e \<Rightarrow> Inl e
          | Inr (ts, None) \<Rightarrow> Inr ts
          | Inr (ts, Some acc) \<Rightarrow>
              if acc \<noteq> [] then (case mk acc of Inl e \<Rightarrow> Inl e | Inr t \<Rightarrow> Inr (ts @ [t]))
              else Inr ts)
         = (case mk fr2 of Inl e \<Rightarrow> Inl e | Inr t \<Rightarrow> Inr ([t1] @ [t]))" for t1
    by (rule part_loop_last_trace [OF _ post fr2(1)]) simp
  have g: "part_traces mk ''data race'' (pre @ rw # fr1 @ mid @ ?tail)
             = (case mk fr1 of
                  Inl e \<Rightarrow> Inl e
                | Inr t1 \<Rightarrow>
                    (case part_loop mk ?rx post [t1] (Some fr2) of
                       Inl e \<Rightarrow> Inl e
                     | Inr (ts, None) \<Rightarrow> Inr ts
                     | Inr (ts, Some acc) \<Rightarrow>
                         if acc \<noteq> []
                         then (case mk acc of Inl e \<Rightarrow> Inl e | Inr t \<Rightarrow> Inr (ts @ [t]))
                         else Inr ts))"
    unfolding part_traces_def rx a b c d by (cases "mk fr1") simp_all
  show ?thesis
  proof (cases "mk fr1")
    case (Inl e)
    then show ?thesis unfolding g by simp
  next
    case (Inr t1)
    with f [of t1] show ?thesis unfolding g by (cases "mk fr2") simp_all
  qed
qed


lemma find_key_None: "find_key ls = None \<longleftrightarrow> (\<forall>x\<in>set ls. re_match FIND_KEY_REGEX x = None)"
  by (induction ls) (auto split: option.splits)

lemma stack_trace_error: "SanitizerSectionPartStackTrace ls = Inl e \<Longrightarrow> e = AssertionError"
  by (simp add: SanitizerSectionPartStackTrace_def split: option.splits)

lemma stack_trace_None: "find_key ls = None \<Longrightarrow> SanitizerSectionPartStackTrace ls = Inl AssertionError"
  by (simp add: SanitizerSectionPartStackTrace_def)

lemma begin_check_length:
  "length ts = length trs \<Longrightarrow> begin_check R ts line = begin_check R trs line"
  by (simp add: begin_check_def)

lemma begin_check_Inr:
  "length trs < length R \<Longrightarrow> \<exists>c. begin_check R trs line = Inr c"
  by (simp add: begin_check_def)

text \<open>
  The loop run with a constructor that keeps the lines it is given never raises; it records
  the line sequences the loop closes.
\<close>

lemma part_loop_observer_total:
  "length trs < length R \<Longrightarrow> \<exists>trs' cur'. part_loop Inr R ls trs cur = Inr (trs', cur')"
proof (induction ls arbitrary: trs cur)
  case Nil
  then show ?case by simp
next
  case (Cons line ls)
  show ?case
  proof (cases cur)
    case None
    from begin_check_Inr [OF Cons.prems] obtain c where "begin_check R trs line = Inr c" by blast
    with None Cons.IH [OF Cons.prems, of c] show ?thesis by simp
  next
    case (Some acc)
    show ?thesis
    proof (cases "re_match FIND_STACK_TRACE_LINE_REGEX line \<noteq> None")
      case True
      with Some Cons.IH [OF Cons.prems, of "Some (acc @ [line])"] show ?thesis by simp
    next
      case False
      show ?thesis
      proof (cases "length (trs @ [acc]) = length R")
        case True
        with Some False show ?thesis by simp
      next
        case ne: False
        with Cons.prems have lt: "length (trs @ [acc]) < length R" by simp
        from begin_check_Inr [OF lt] obtain c where c: "begin_check R (trs @ [acc]) line = Inr c"
          by blast
        from Cons.IH [OF lt, of c] Some False ne c show ?thesis by simp
      qed
    qed
  qed
qed

text \<open>
  The loop with the constructor of the stack trace follows the recording run up to the
  first recorded sequence without an in-codebase line, where it raises.
\<close>

lemma part_loop_observed:
  assumes "part_loop Inr R ls trs cur = Inr (trs', cur')" and "length ts = length trs"
  shows "\<exists>new. trs' = trs @ new
           \<and> part_loop SanitizerSectionPartStackTrace R ls ts cur
               = (if \<forall>s\<in>set new. find_key s \<noteq> None
                  then Inr (ts @ map (\<lambda>s. \<lparr>key = the (find_key s)\<rparr>) new, cur')
                  else Inl AssertionError)"
  using assms
proof (induction ls arbitrary: trs cur ts)
  case Nil
  then show ?case by simp
next
  case (Cons line ls)
  show ?case
  proof (cases cur)
    case None
    from Cons.prems(1) None obtain c where
      c: "begin_check R trs line = Inr c" and run: "part_loop Inr R ls trs c = Inr (trs', cur')"
      by (auto split: sum.splits)
    from Cons.IH [OF run Cons.prems(2)] obtain new where
      n: "trs' = trs @ new"
         "part_loop SanitizerSectionPartStackTrace R ls ts c
            = (if \<forall>s\<in>set new. find_key s \<noteq> None
               then Inr (ts @ map (\<lambda>s. \<lparr>key = the (find_key s)\<rparr>) new, cur')
               else Inl AssertionError)"
      by blast
    have "begin_check R ts line = Inr c"
      using c begin_check_length [OF Cons.prems(2), of R line] by simp
    with None n(2) have "part_loop SanitizerSectionPartStackTrace R (line # ls) ts cur
            = (if \<forall>s\<in>set new. find_key s \<noteq> None
               then Inr (ts @ map (\<lambda>s. \<lparr>key = the (find_key s)\<rparr>) new, cur')
               else Inl AssertionError)"
      by simp
    with n(1) show ?thesis by blast
  next
    case (Some acc)
    show ?thesis
    proof (cases "re_match FIND_STACK_TRACE_LINE_REGEX line \<noteq> None")
      case True
      with Cons.prems(1) Some have run: "part_loop Inr R ls trs (Some (acc @ [line])) = Inr (trs', cur')"
        by simp
      from Cons.IH [OF run Cons.prems(2)] obtain new where
        n: "trs' = trs @ new"
           "part_loop SanitizerSectionPartStackTrace R ls ts (Some (acc @ [line]))
              = (if \<forall>s\<in>set new. find_key s \<noteq> None
                 then Inr (ts @ map (\<lambda>s. \<lparr>key = the (find_key s)\<rparr>) new, cur')
                 else Inl AssertionError)"
        by blast
      from True Some n(2) have "part_loop SanitizerSectionPartStackTrace R (line # ls) ts cur
              = (if \<forall>s\<in>set new. find_key s \<noteq> None
                 then Inr (ts @ map (\<lambda>s. \<lparr>key = the (find_key s)\<rparr>) new, cur')
                 else Inl AssertionError)"
        by simp
      with n(1) show ?thesis by blast
    next
      case False
      then have nf: "re_match FIND_STACK_TRACE_LINE_REGEX line = None" by simp
      show ?thesis
      proof (cases "length (trs @ [acc]) = length R")
        case True
        with Cons.prems(1) Some nf have r: "trs' = trs @ [acc]" "cur' = None" by simp_all
        have len: "length (ts @ [t]) = length R" for t :: stack_trace
          using True Cons.prems(2) by simp
        have "part_loop SanitizerSectionPartStackTrace R (line # ls) ts cur
                = (if \<forall>s\<in>set [acc]. find_key s \<noteq> None
                   then Inr (ts @ map (\<lambda>s. \<lparr>key = the (find_key s)\<rparr>) [acc], cur')
                   else Inl AssertionError)"
          using Some nf len r(2)
          by (cases "find_key acc") (simp_all add: SanitizerSectionPartStackTrace_def)
        with r(1) show ?thesis by blast
      next
        case ne: False
        from Cons.prems(1) Some nf ne obtain c where
          c: "begin_check R (trs @ [acc]) line = Inr c"
          and run: "part_loop Inr R ls (trs @ [acc]) c = Inr (trs', cur')"
          by (auto split: sum.splits)
        have nel: "length (ts @ [t]) \<noteq> length R" for t :: stack_trace
          using ne Cons.prems(2) by simp
        have bc: "begin_check R (ts @ [t]) line = Inr c" for t :: stack_trace
          using c begin_check_length [of "ts @ [t]" "trs @ [acc]" R line] Cons.prems(2) by simp
        show ?thesis
        proof (cases "find_key acc")
          case None
          then have "part_loop SanitizerSectionPartStackTrace R (line # ls) ts cur = Inl AssertionError"
            using Some nf by (simp add: SanitizerSectionPartStackTrace_def)
          moreover from Cons.IH [OF run, of "ts @ [\<lparr>key = []\<rparr>]"] Cons.prems(2)
          obtain new where "trs' = (trs @ [acc]) @ new" by auto
          ultimately have "trs' = trs @ (acc # new)
            \<and> part_loop SanitizerSectionPartStackTrace R (line # ls) ts cur
               = (if \<forall>s\<in>set (acc # new). find_key s \<noteq> None
                  then Inr (ts @ map (\<lambda>s. \<lparr>key = the (find_key s)\<rparr>) (acc # new), cur')
                  else Inl AssertionError)"
            using None by simp
          then show ?thesis by blast
        next
          case (Some k)
          let ?t = "\<lparr>key = k\<rparr>"
          have l2: "length (ts @ [?t]) = length (trs @ [acc])" using Cons.prems(2) by simp
          from Cons.IH [OF run l2] obtain new where
            n: "trs' = (trs @ [acc]) @ new"
               "part_loop SanitizerSectionPartStackTrace R ls (ts @ [?t]) c
                  = (if \<forall>s\<in>set new. find_key s \<noteq> None
                     then Inr ((ts @ [?t]) @ map (\<lambda>s. \<lparr>key = the (find_key s)\<rparr>) new, cur')
                     else Inl AssertionError)"
            by blast
          have "part_loop SanitizerSectionPartStackTrace R (line # ls) ts cur
                  = part_loop SanitizerSectionPartStackTrace R ls (ts @ [?t]) c"
            using \<open>cur = Some acc\<close> nf Some nel [of ?t] bc [of ?t]
            by (simp add: SanitizerSectionPartStackTrace_def)
          with n Some have "trs' = trs @ (acc # new)
            \<and> part_loop SanitizerSectionPartStackTrace R (line # ls) ts cur
               = (if \<forall>s\<in>set (acc # new). find_key s \<noteq> None
                  then Inr (ts @ map (\<lambda>s. \<lparr>key = the (find_key s)\<rparr>) (acc # new), cur')
                  else Inl AssertionError)"
            by simp
          then show ?thesis by blast
        qed
      qed
    qed
  qed
qed

lemma table_nonempty: "0 < length (FIND_RELEVANT_STACK_TRACE_BEGIN_REGEXES_BY_ERROR_NAME name)"
  by (simp add: FIND_RELEVANT_STACK_TRACE_BEGIN_REGEXES_BY_ERROR_NAME_def)

text \<open>A part either is built or raises the assertion error of a stack trace.\<close>

lemma part_built_or_assertion:
  "(\<exists>p. SanitizerSectionPart name lines = Inr p) \<or> SanitizerSectionPart name lines = Inl AssertionError"
proof -
  let ?R = "FIND_RELEVANT_STACK_TRACE_BEGIN_REGEXES_BY_ERROR_NAME name"
  have "length ([] :: string list list) < length ?R" using table_nonempty [of name] by simp
  from part_loop_observer_total [OF this] obtain trs' cur' where
    o: "part_loop Inr ?R lines [] None = Inr (trs', cur')" by blast
  have "length ([] :: stack_trace list) = length ([] :: string list list)" by simp
  from part_loop_observed [OF o this] obtain new where
    run: "part_loop SanitizerSectionPartStackTrace ?R lines [] None
            = (if \<forall>s\<in>set new. find_key s \<noteq> None
               then Inr ([] @ map (\<lambda>s. \<lparr>key = the (find_key s)\<rparr>) new, cur')
               else Inl AssertionError)"
    by blast
  show ?thesis
  proof (cases "\<forall>s\<in>set new. find_key s \<noteq> None")
    case False
    have "part_loop SanitizerSectionPartStackTrace ?R lines [] None = Inl AssertionError"
      unfolding run by (rule if_not_P [OF False])
    then show ?thesis by (simp add: SanitizerSectionPart_def part_traces_def)
  next
    case True
    have r: "part_loop SanitizerSectionPartStackTrace ?R lines [] None
               = Inr ([] @ map (\<lambda>s. \<lparr>key = the (find_key s)\<rparr>) new, cur')"
      unfolding run by (rule if_P [OF True])
    show ?thesis
    proof (cases cur')
      case None
      with r show ?thesis by (simp add: SanitizerSectionPart_def part_traces_def)
    next
      case (Some acc)
      with r show ?thesis
        by (cases "find_key acc")
           (simp_all add: SanitizerSectionPart_def part_traces_def SanitizerSectionPartStackTrace_def)
    qed
  qed
qed

lemma part_error: "SanitizerSectionPart name lines = Inl e \<Longrightarrow> e = AssertionError"
  using part_built_or_assertion [of name lines] by auto

text \<open>A part that closes a stack trace without an in-codebase line raises.\<close>

lemma part_with_bad_trace:
  assumes closed: "part_traces Inr name lines = Inr closed"
    and bad: "trace \<in> set closed" "find_key trace = None"
  shows "SanitizerSectionPart name lines = Inl AssertionError"
proof -
  let ?R = "FIND_RELEVANT_STACK_TRACE_BEGIN_REGEXES_BY_ERROR_NAME name"
  from closed obtain trs' cur' where
    o: "part_loop Inr ?R lines [] None = Inr (trs', cur')"
    by (auto simp: part_traces_def split: sum.splits)
  have "length ([] :: stack_trace list) = length ([] :: string list list)" by simp
  from part_loop_observed [OF o this] obtain new where
    new: "trs' = [] @ new" and
    run: "part_loop SanitizerSectionPartStackTrace ?R lines [] None
            = (if \<forall>s\<in>set new. find_key s \<noteq> None
               then Inr ([] @ map (\<lambda>s. \<lparr>key = the (find_key s)\<rparr>) new, cur')
               else Inl AssertionError)"
    by blast
  show ?thesis
  proof (cases "\<forall>s\<in>set new. find_key s \<noteq> None")
    case False
    have "part_loop SanitizerSectionPartStackTrace ?R lines [] None = Inl AssertionError"
      unfolding run by (rule if_not_P [OF False])
    then show ?thesis by (simp add: SanitizerSectionPart_def part_traces_def)
  next
    case True
    have r: "part_loop SanitizerSectionPartStackTrace ?R lines [] None
               = Inr ([] @ map (\<lambda>s. \<lparr>key = the (find_key s)\<rparr>) new, cur')"
      unfolding run by (rule if_P [OF True])
    from True bad new have nt: "trace \<notin> set trs'" by auto
    from closed o have "closed = (case cur' of None \<Rightarrow> trs'
                                  | Some acc \<Rightarrow> if acc \<noteq> [] then trs' @ [acc] else trs')"
      by (auto simp: part_traces_def split: option.splits if_splits)
    with bad(1) nt obtain acc where acc: "cur' = Some acc" "acc \<noteq> []" "trace = acc"
      by (auto split: option.splits if_splits)
    with r bad(2) show ?thesis
      by (simp add: SanitizerSectionPart_def part_traces_def SanitizerSectionPartStackTrace_def)
  qed
qed


section \<open>The loop over the lines of a section\<close>

lemma indented_no_part_begin: "indented x \<Longrightarrow> \<not> matches FIND_SECTION_PART_BEGIN_REGEX x"
  using part_begin_first_char [of x] by (auto simp: indented_def)

lemma indented_no_direct_leak: "indented x \<Longrightarrow> \<not> matches DIRECT_LEAK_BEGIN x"
  using direct_leak_first_char [of x] by (auto simp: indented_def isspace_def)

lemma rests_Rep_split:
  assumes "x \<in> rests (Rep g lo k) s"
  shows "\<exists>pre. s = pre @ x \<and> (\<forall>c\<in>set pre. in_class k c) \<and> lo \<le> length pre"
proof -
  from assms obtain i where i: "lo \<le> i" "i \<le> length (takeWhile (in_class k) s)" "x = drop i s"
    by (auto simp: rests_Rep)
  have ta: "i \<le> length a \<Longrightarrow> take i (a @ b) = take i a" for a b :: string
    by simp
  have "take i s = take i (takeWhile (in_class k) s)"
    using ta [OF i(2), of "dropWhile (in_class k) s"] by simp
  then have "\<forall>c\<in>set (take i s). in_class k c"
    by (metis in_set_takeD set_takeWhileD)
  moreover have "length (take i s) = i"
    using i(2) length_takeWhile_le [of "in_class k" s] by simp
  ultimately show ?thesis using i(1,3) by (intro exI [of _ "take i s"]) simp
qed

lemma seqs_Rep_first:
  assumes "rests (seqs (Rep g lo k # rs)) s \<noteq> {}"
  shows "\<exists>pre rest. s = pre @ rest \<and> (\<forall>c\<in>set pre. in_class k c) \<and> lo \<le> length pre
           \<and> rests (seqs rs) rest \<noteq> {}"
proof -
  from assms obtain x where x: "x \<in> rests (Rep g lo k) s" "rests (seqs rs) x \<noteq> {}"
    unfolding rests_seqs_Cons by blast
  from rests_Rep_split [OF x(1)] x(2) show ?thesis by blast
qed

lemma error_name_line_has_S:
  assumes "matches FIND_ERROR_NAME_REGEX s"
  shows "CHR ''S'' \<in> set s"
proof -
  from assms have "rests (seqs (Rep Greedy 0 Dot # Lit ''Sanitizer: '' #
       [Grp ''error_name'' (Rep Lazy 1 Dot),
           Alt (Lit '' ('')
             (Alt (seqs [Lit '' 0x'', Rep Greedy 1 HexLower])
                  (seqs [Rep Greedy 0 Space, Eol]))])) s \<noteq> {}"
    unfolding matches_rests FIND_ERROR_NAME_REGEX_def .
  from seqs_Rep_first [OF this] obtain pre rest where
    s: "s = pre @ rest" and r: "rests (seqs (Lit ''Sanitizer: '' #
       [Grp ''error_name'' (Rep Lazy 1 Dot),
           Alt (Lit '' ('')
             (Alt (seqs [Lit '' 0x'', Rep Greedy 1 HexLower])
                  (seqs [Rep Greedy 0 Space, Eol]))])) rest \<noteq> {}"
    by blast
  from seqs_Lit_first [OF r] obtain u where "rest = ''Sanitizer: '' @ u" by blast
  with s show ?thesis by simp
qed

lemma direct_leak_line_no_S:
  assumes "matches DIRECT_LEAK_BEGIN s"
  shows "CHR ''S'' \<notin> set s"
proof -
  have nd: "\<not> in_class Digit CHR ''S''" by (simp add: isdigit_def)
  from assms have "rests (seqs (Lit ''Direct leak of '' # Rep Greedy 1 Digit #
       Lit '' byte(s) in '' # Rep Greedy 1 Digit # Lit '' object(s) allocated from:'' # [Eol])) s \<noteq> {}"
    unfolding matches_rests DIRECT_LEAK_BEGIN_def .
  from seqs_Lit_first [OF this] obtain r1 where
    s1: "s = ''Direct leak of '' @ r1" and
    r1: "rests (seqs (Rep Greedy 1 Digit #
       Lit '' byte(s) in '' # Rep Greedy 1 Digit # Lit '' object(s) allocated from:'' # [Eol])) r1 \<noteq> {}"
    by blast
  from seqs_Rep_first [OF r1] obtain d1 r2 where
    s2: "r1 = d1 @ r2" and d1: "\<forall>c\<in>set d1. in_class Digit c" and
    r2: "rests (seqs (Lit '' byte(s) in '' # Rep Greedy 1 Digit #
           Lit '' object(s) allocated from:'' # [Eol])) r2 \<noteq> {}"
    by blast
  from seqs_Lit_first [OF r2] obtain r3 where
    s3: "r2 = '' byte(s) in '' @ r3" and
    r3: "rests (seqs (Rep Greedy 1 Digit # Lit '' object(s) allocated from:'' # [Eol])) r3 \<noteq> {}"
    by blast
  from seqs_Rep_first [OF r3] obtain d2 r4 where
    s4: "r3 = d2 @ r4" and d2: "\<forall>c\<in>set d2. in_class Digit c" and
    r4: "rests (seqs (Lit '' object(s) allocated from:'' # [Eol])) r4 \<noteq> {}"
    by blast
  from seqs_Lit_first [OF r4] obtain r5 where
    s5: "r4 = '' object(s) allocated from:'' @ r5" and r5: "rests (seqs [Eol]) r5 \<noteq> {}"
    by blast
  from r5 have e: "r5 = [] \<or> r5 = [newline]" by (simp split: if_splits)
  have "CHR ''S'' \<notin> set d1" "CHR ''S'' \<notin> set d2" using d1 d2 nd by blast+
  moreover have "CHR ''S'' \<notin> set r5" using e by (auto simp: newline_def)
  ultimately show ?thesis unfolding s1 s2 s3 s4 s5 by simp
qed

lemma section_loop_cont:
  "\<forall>x\<in>set cs. \<not> matches FIND_SECTION_PART_BEGIN_REGEX x \<Longrightarrow>
   section_loop name (cs @ rest) part_lines subs = section_loop name rest (part_lines @ cs) subs"
  by (induction cs arbitrary: part_lines) (simp_all add: matches_def)

lemma section_loop_first:
  "section_loop name (h # rest) [] subs = section_loop name rest [h] subs"
  by simp

lemma section_loop_head:
  "matches FIND_SECTION_PART_BEGIN_REGEX h \<Longrightarrow> part_lines \<noteq> [] \<Longrightarrow>
   section_loop name (h # rest) part_lines subs =
     (case SanitizerSectionPart name part_lines of
        Inl e \<Rightarrow> Inl e
      | Inr p \<Rightarrow> section_loop name rest [h] (subs @ [p]))"
  by (simp add: matches_def)

text \<open>One part: its head line, its continuation lines, then a new part or the end.\<close>

lemma section_loop_part:
  assumes "\<forall>x\<in>set cs. \<not> matches FIND_SECTION_PART_BEGIN_REGEX x"
    and "matches FIND_SECTION_PART_BEGIN_REGEX h"
  shows "section_loop name (cs @ h # rest) [p] subs =
     (case SanitizerSectionPart name (p # cs) of
        Inl e \<Rightarrow> Inl e
      | Inr q \<Rightarrow> section_loop name rest [h] (subs @ [q]))"
  using section_loop_cont [OF assms(1), of name "h # rest" "[p]" subs]
    section_loop_head [OF assms(2), of "p # cs" name rest subs] by simp

lemma section_loop_last_part:
  assumes "\<forall>x\<in>set cs. \<not> matches FIND_SECTION_PART_BEGIN_REGEX x"
  shows "section_loop name cs [p] subs =
     (case SanitizerSectionPart name (p # cs) of
        Inl e \<Rightarrow> Inl e
      | Inr q \<Rightarrow> Inr (subs @ [q]))"
  using section_loop_cont [OF assms, of name "[]" "[p]" subs] by simp

lemma no_begin_part:
  assumes "\<forall>x\<in>set lines. \<not> matches DIRECT_LEAK_BEGIN x"
  shows "SanitizerSectionPart ''detected memory leaks'' lines = Inr \<lparr>relevant_stack_traces = []\<rparr>"
proof -
  have "part_traces SanitizerSectionPartStackTrace ''detected memory leaks'' lines = Inr []"
    by (rule part_traces_no_begin)
       (use assms in \<open>simp add: FIND_RELEVANT_STACK_TRACE_BEGIN_REGEXES_BY_ERROR_NAME_def\<close>)
  then show ?thesis by (simp add: SanitizerSectionPart_def)
qed

lemma direct_leak_line_shape:
  assumes "matches DIRECT_LEAK_BEGIN s"
  shows "\<exists>body e. s = CHR ''D'' # body @ e \<and> newline \<notin> set body \<and> (e = [] \<or> e = [newline])"
proof -
  have nd: "\<not> in_class Digit newline" by (simp add: isdigit_def newline_def)
  from assms have "rests (seqs (Lit ''Direct leak of '' # Rep Greedy 1 Digit #
       Lit '' byte(s) in '' # Rep Greedy 1 Digit # Lit '' object(s) allocated from:'' # [Eol])) s \<noteq> {}"
    unfolding matches_rests DIRECT_LEAK_BEGIN_def .
  from seqs_Lit_first [OF this] obtain r1 where
    s1: "s = ''Direct leak of '' @ r1" and
    r1: "rests (seqs (Rep Greedy 1 Digit #
       Lit '' byte(s) in '' # Rep Greedy 1 Digit # Lit '' object(s) allocated from:'' # [Eol])) r1 \<noteq> {}"
    by blast
  from seqs_Rep_first [OF r1] obtain d1 r2 where
    s2: "r1 = d1 @ r2" and d1: "\<forall>c\<in>set d1. in_class Digit c" and
    r2: "rests (seqs (Lit '' byte(s) in '' # Rep Greedy 1 Digit #
           Lit '' object(s) allocated from:'' # [Eol])) r2 \<noteq> {}"
    by blast
  from seqs_Lit_first [OF r2] obtain r3 where
    s3: "r2 = '' byte(s) in '' @ r3" and
    r3: "rests (seqs (Rep Greedy 1 Digit # Lit '' object(s) allocated from:'' # [Eol])) r3 \<noteq> {}"
    by blast
  from seqs_Rep_first [OF r3] obtain d2 r4 where
    s4: "r3 = d2 @ r4" and d2: "\<forall>c\<in>set d2. in_class Digit c" and
    r4: "rests (seqs (Lit '' object(s) allocated from:'' # [Eol])) r4 \<noteq> {}"
    by blast
  from seqs_Lit_first [OF r4] obtain r5 where
    s5: "r4 = '' object(s) allocated from:'' @ r5" and r5: "rests (seqs [Eol]) r5 \<noteq> {}"
    by blast
  from r5 have e: "r5 = [] \<or> r5 = [newline]" by (simp split: if_splits)
  let ?body = "''irect leak of '' @ d1 @ '' byte(s) in '' @ d2 @ '' object(s) allocated from:''"
  have n1: "newline \<notin> set d1" "newline \<notin> set d2" using d1 d2 nd by blast+
  have "newline \<notin> set ?body" using n1 by (simp add: newline_def)
  moreover have "s = CHR ''D'' # ?body @ r5" unfolding s1 s2 s3 s4 s5 by simp
  ultimately show ?thesis using e by blast
qed

lemma one_line_is_part_begin:
  assumes "\<not> isspace c" and "newline \<notin> set body" and "e = [] \<or> e = [newline]"
  shows "matches FIND_SECTION_PART_BEGIN_REGEX (c # body @ e)"
proof -
  have tw: "takeWhile (in_class Dot) (body @ e) = body @ takeWhile (in_class Dot) e"
    by (rule takeWhile_append2) (use assms(2) in auto)
  have "drop (length body) (body @ e) \<in> rests (Rep Greedy 0 Dot) (body @ e)"
    unfolding rests_Rep tw by (intro CollectI exI [of _ "length body"]) simp
  then have "e \<in> rests (Rep Greedy 0 Dot) (body @ e)" by simp
  moreover have "e \<in> rests Eol e" using assms(3) by auto
  ultimately have "e \<in> (\<Union>r\<in>rests (Rep Greedy 0 Dot) (body @ e). rests Eol r)" by blast
  then have "e \<in> rests (seqs [Cls NonSpace, Rep Greedy 0 Dot, Eol]) (c # body @ e)"
    using assms(1) by (simp del: rests_Eol)
  then show ?thesis unfolding matches_rests FIND_SECTION_PART_BEGIN_REGEX_def by blast
qed

lemma direct_leak_line_is_part_begin:
  assumes "matches DIRECT_LEAK_BEGIN s"
  shows "matches FIND_SECTION_PART_BEGIN_REGEX s"
proof -
  from direct_leak_line_shape [OF assms] obtain body e where
    s: "s = CHR ''D'' # body @ e" and b: "newline \<notin> set body" and e: "e = [] \<or> e = [newline]"
    by blast
  have "\<not> isspace CHR ''D''" by (simp add: isspace_def)
  from one_line_is_part_begin [OF this b e] s show ?thesis by simp
qed

lemma find_error_name_matches:
  "find_error_name (hdr # rest) = Inr name \<Longrightarrow> matches FIND_ERROR_NAME_REGEX hdr"
  by (auto simp: find_error_name_def matches_def split: option.splits)

lemma find_error_name_header_only:
  "find_error_name (hdr # rest) = find_error_name [hdr]"
  by (simp add: find_error_name_def)


lemma section_loop_error: "section_loop n ls pl subs = Inl e \<Longrightarrow> e = AssertionError"
proof (induction ls arbitrary: pl subs)
  case Nil
  then show ?case by (auto split: sum.splits dest: part_error)
next
  case (Cons x ls)
  then show ?case by (auto split: sum.splits if_splits dest: part_error)
qed

text \<open>The loop over the lines before a part: it raises, or it reaches the part.\<close>

lemma section_loop_prefix:
  "(\<exists>e. \<forall>rest. section_loop n (pre @ rest) pl subs = Inl e)
   \<or> (\<exists>pl' subs'. (pl \<noteq> [] \<or> pre \<noteq> [] \<longrightarrow> pl' \<noteq> [])
          \<and> (\<forall>rest. section_loop n (pre @ rest) pl subs = section_loop n rest pl' subs'))"
proof (induction pre arbitrary: pl subs)
  case Nil
  have "(pl \<noteq> [] \<or> ([] :: string list) \<noteq> [] \<longrightarrow> pl \<noteq> [])
          \<and> (\<forall>rest. section_loop n ([] @ rest) pl subs = section_loop n rest pl subs)" by simp
  then show ?case by blast
next
  case (Cons x pre)
  show ?case
  proof (cases "re_match FIND_SECTION_PART_BEGIN_REGEX x \<noteq> None \<and> pl \<noteq> []")
    case True
    show ?thesis
    proof (cases "SanitizerSectionPart n pl")
      case (Inl e)
      with True have "\<forall>rest. section_loop n ((x # pre) @ rest) pl subs = Inl e" by simp
      then show ?thesis by blast
    next
      case (Inr q)
      with True have step: "section_loop n ((x # pre) @ rest) pl subs
                              = section_loop n (pre @ rest) [x] (subs @ [q])" for rest
        by simp
      from Cons.IH [of "[x]" "subs @ [q]"] show ?thesis
      proof
        assume "\<exists>e. \<forall>rest. section_loop n (pre @ rest) [x] (subs @ [q]) = Inl e"
        then show ?thesis unfolding step by blast
      next
        assume "\<exists>pl' subs'. ([x] \<noteq> [] \<or> pre \<noteq> [] \<longrightarrow> pl' \<noteq> [])
                  \<and> (\<forall>rest. section_loop n (pre @ rest) [x] (subs @ [q])
                               = section_loop n rest pl' subs')"
        then obtain pl' subs' where "pl' \<noteq> []"
          "\<forall>rest. section_loop n (pre @ rest) [x] (subs @ [q]) = section_loop n rest pl' subs'"
          by auto
        then have "(pl \<noteq> [] \<or> x # pre \<noteq> [] \<longrightarrow> pl' \<noteq> [])
                  \<and> (\<forall>rest. section_loop n ((x # pre) @ rest) pl subs
                               = section_loop n rest pl' subs')"
          unfolding step by simp
        then show ?thesis by blast
      qed
    qed
  next
    case False
    then have step: "section_loop n ((x # pre) @ rest) pl subs
                       = section_loop n (pre @ rest) (pl @ [x]) subs" for rest
      by auto
    from Cons.IH [of "pl @ [x]" subs] show ?thesis
    proof
      assume "\<exists>e. \<forall>rest. section_loop n (pre @ rest) (pl @ [x]) subs = Inl e"
      then show ?thesis unfolding step by blast
    next
      assume "\<exists>pl' subs'. (pl @ [x] \<noteq> [] \<or> pre \<noteq> [] \<longrightarrow> pl' \<noteq> [])
                \<and> (\<forall>rest. section_loop n (pre @ rest) (pl @ [x]) subs
                             = section_loop n rest pl' subs')"
      then obtain pl' subs' where "pl' \<noteq> []"
        "\<forall>rest. section_loop n (pre @ rest) (pl @ [x]) subs = section_loop n rest pl' subs'"
        by auto
      then have "(pl \<noteq> [] \<or> x # pre \<noteq> [] \<longrightarrow> pl' \<noteq> [])
                \<and> (\<forall>rest. section_loop n ((x # pre) @ rest) pl subs
                             = section_loop n rest pl' subs')"
        unfolding step by simp
      then show ?thesis by blast
    qed
  qed
qed

lemma section_loop_close_bad:
  assumes cont: "\<forall>x\<in>set cs. \<not> matches FIND_SECTION_PART_BEGIN_REGEX x"
    and post: "post = [] \<or> matches FIND_SECTION_PART_BEGIN_REGEX (hd post)"
    and bad: "SanitizerSectionPart n (h # cs) = Inl AssertionError"
  shows "section_loop n (cs @ post) [h] subs = Inl AssertionError"
proof -
  have a: "section_loop n (cs @ post) [h] subs = section_loop n post ([h] @ cs) subs"
    by (rule section_loop_cont [OF cont])
  show ?thesis
  proof (cases post)
    case Nil
    with a bad show ?thesis by simp
  next
    case (Cons y ys)
    with post have "matches FIND_SECTION_PART_BEGIN_REGEX y" by simp
    from section_loop_head [OF this, of "h # cs" n ys subs] a bad Cons show ?thesis by simp
  qed
qed

text \<open>A section with a part that raises is not built.\<close>

lemma section_bad_part:
  assumes lines: "lines = pre @ part @ post" "part \<noteq> []"
    and head: "pre = [] \<or> matches FIND_SECTION_PART_BEGIN_REGEX (hd part)"
    and cont: "\<forall>x\<in>set (tl part). \<not> matches FIND_SECTION_PART_BEGIN_REGEX x"
    and post: "post = [] \<or> matches FIND_SECTION_PART_BEGIN_REGEX (hd post)"
    and bad: "SanitizerSectionPart n part = Inl AssertionError"
  shows "section_loop n lines [] [] = Inl AssertionError"
proof -
  from lines(2) obtain h cs where p: "part = h # cs" by (cases part) auto
  from cont p have c: "\<forall>x\<in>set cs. \<not> matches FIND_SECTION_PART_BEGIN_REGEX x" by simp
  from bad p have b: "SanitizerSectionPart n (h # cs) = Inl AssertionError" by simp
  note close = section_loop_close_bad [OF c post b]
  show ?thesis
  proof (cases "pre = []")
    case True
    have "section_loop n (h # cs @ post) [] [] = section_loop n (cs @ post) [h] []" by simp
    with close [of "[]"] True lines(1) p show ?thesis by simp
  next
    case False
    with head p have hb: "matches FIND_SECTION_PART_BEGIN_REGEX h" by simp
    from section_loop_prefix [of n pre "[]" "[]"] show ?thesis
    proof
      assume "\<exists>e. \<forall>rest. section_loop n (pre @ rest) [] [] = Inl e"
      then obtain e where e: "section_loop n (pre @ part @ post) [] [] = Inl e" by blast
      from section_loop_error [OF this] e lines(1) show ?thesis by simp
    next
      assume "\<exists>pl' subs'. ([] \<noteq> [] \<or> pre \<noteq> [] \<longrightarrow> pl' \<noteq> [])
                \<and> (\<forall>rest. section_loop n (pre @ rest) [] [] = section_loop n rest pl' subs')"
      with False obtain pl' subs' where ne: "pl' \<noteq> []"
        and r: "section_loop n (pre @ part @ post) [] [] = section_loop n (part @ post) pl' subs'"
        by blast
      have st: "section_loop n (h # cs @ post) pl' subs'
               = (case SanitizerSectionPart n pl' of
                    Inl e \<Rightarrow> Inl e
                  | Inr q \<Rightarrow> section_loop n (cs @ post) [h] (subs' @ [q]))"
        by (rule section_loop_head [OF hb ne])
      have "section_loop n (h # cs @ post) pl' subs' = Inl AssertionError"
      proof (cases "SanitizerSectionPart n pl'")
        case (Inl e)
        with part_error [OF Inl] show ?thesis unfolding st by simp
      next
        case (Inr q)
        with close [of "subs' @ [q]"] show ?thesis unfolding st by simp
      qed
      with r lines(1) p show ?thesis by simp
    qed
  qed
qed

text \<open>
  A part of a section of detected memory leaks that does not begin with a \<open>Direct leak\<close>
  line has no relevant stack trace.
\<close>

lemma other_leak_part:
  assumes "p \<noteq> []" and "\<not> matches DIRECT_LEAK_BEGIN (hd p)"
    and "\<forall>x\<in>set (tl p). \<not> matches FIND_SECTION_PART_BEGIN_REGEX x"
  shows "SanitizerSectionPart ''detected memory leaks'' p = Inr \<lparr>relevant_stack_traces = []\<rparr>"
proof (rule no_begin_part)
  from assms(1) obtain h cs where p: "p = h # cs" by (cases p) auto
  have "\<not> matches DIRECT_LEAK_BEGIN x" if "x \<in> set cs" for x
    using that assms(3) p direct_leak_line_is_part_begin [of x] by auto
  with assms(2) p show "\<forall>x\<in>set p. \<not> matches DIRECT_LEAK_BEGIN x" by simp
qed

lemma section_loop_other_parts_end:
  assumes "\<forall>p\<in>set ps. p \<noteq> [] \<and> matches FIND_SECTION_PART_BEGIN_REGEX (hd p)
              \<and> \<not> matches DIRECT_LEAK_BEGIN (hd p)
              \<and> (\<forall>x\<in>set (tl p). \<not> matches FIND_SECTION_PART_BEGIN_REGEX x)"
    and "cur \<noteq> []"
  shows "section_loop ''detected memory leaks'' (concat ps) cur subs
           = (case SanitizerSectionPart ''detected memory leaks'' cur of
                Inl e \<Rightarrow> Inl e
              | Inr q \<Rightarrow> Inr (subs @ q # replicate (length ps) \<lparr>relevant_stack_traces = []\<rparr>))"
  using assms
proof (induction ps arbitrary: cur subs)
  case Nil
  then show ?case by (simp split: sum.splits)
next
  case (Cons p ps)
  let ?n = "''detected memory leaks''"
  let ?none = "\<lparr>relevant_stack_traces = []\<rparr>"
  from Cons.prems(1) obtain h cs where p: "p = h # cs" by (cases p) auto
  from Cons.prems(1) p have h: "matches FIND_SECTION_PART_BEGIN_REGEX h"
    and cs: "\<forall>x\<in>set cs. \<not> matches FIND_SECTION_PART_BEGIN_REGEX x"
    and nd: "\<not> matches DIRECT_LEAK_BEGIN (hd p)"
    and ct: "\<forall>x\<in>set (tl p). \<not> matches FIND_SECTION_PART_BEGIN_REGEX x"
    by simp_all
  have pn: "SanitizerSectionPart ?n (h # cs) = Inr ?none"
    using other_leak_part [OF _ nd ct] p by simp
  have rest: "\<forall>p\<in>set ps. p \<noteq> [] \<and> matches FIND_SECTION_PART_BEGIN_REGEX (hd p)
              \<and> \<not> matches DIRECT_LEAK_BEGIN (hd p)
              \<and> (\<forall>x\<in>set (tl p). \<not> matches FIND_SECTION_PART_BEGIN_REGEX x)"
    using Cons.prems(1) by simp
  have a: "section_loop ?n (h # cs @ concat ps) cur subs
             = (case SanitizerSectionPart ?n cur of
                  Inl e \<Rightarrow> Inl e
                | Inr q \<Rightarrow> section_loop ?n (cs @ concat ps) [h] (subs @ [q]))"
    by (rule section_loop_head [OF h Cons.prems(2)])
  have b: "section_loop ?n (cs @ concat ps) [h] subs' = section_loop ?n (concat ps) (h # cs) subs'"
    for subs'
    using section_loop_cont [OF cs, of ?n "concat ps" "[h]" subs'] by simp
  have c: "section_loop ?n (concat ps) (h # cs) subs'
             = Inr (subs' @ ?none # replicate (length ps) ?none)" for subs'
    using Cons.IH [OF rest, of "h # cs" subs'] pn by simp
  have "section_loop ?n (h # cs @ concat ps) cur subs
          = (case SanitizerSectionPart ?n cur of
               Inl e \<Rightarrow> Inl e
             | Inr q \<Rightarrow> Inr (subs @ q # replicate (length (p # ps)) ?none))"
    unfolding a by (cases "SanitizerSectionPart ?n cur") (simp_all add: b c)
  then show ?case unfolding p by simp
qed

lemma section_loop_other_parts:
  assumes "\<forall>p\<in>set ps. p \<noteq> [] \<and> matches FIND_SECTION_PART_BEGIN_REGEX (hd p)
              \<and> \<not> matches DIRECT_LEAK_BEGIN (hd p)
              \<and> (\<forall>x\<in>set (tl p). \<not> matches FIND_SECTION_PART_BEGIN_REGEX x)"
    and "cur \<noteq> []" and "matches FIND_SECTION_PART_BEGIN_REGEX d"
  shows "section_loop ''detected memory leaks'' (concat ps @ d # rest) cur subs
           = (case SanitizerSectionPart ''detected memory leaks'' cur of
                Inl e \<Rightarrow> Inl e
              | Inr q \<Rightarrow>
                  section_loop ''detected memory leaks'' rest [d]
                    (subs @ q # replicate (length ps) \<lparr>relevant_stack_traces = []\<rparr>))"
  using assms(1,2)
proof (induction ps arbitrary: cur subs)
  case Nil
  from section_loop_head [OF assms(3) Nil(2), of "''detected memory leaks''" rest subs]
  show ?case
    by (cases "SanitizerSectionPart ''detected memory leaks'' cur")
       (simp_all del: section_loop.simps)
next
  case (Cons p ps)
  let ?n = "''detected memory leaks''"
  let ?none = "\<lparr>relevant_stack_traces = []\<rparr>"
  from Cons.prems(1) obtain h cs where p: "p = h # cs" by (cases p) auto
  from Cons.prems(1) p have h: "matches FIND_SECTION_PART_BEGIN_REGEX h"
    and cs: "\<forall>x\<in>set cs. \<not> matches FIND_SECTION_PART_BEGIN_REGEX x"
    and nd: "\<not> matches DIRECT_LEAK_BEGIN (hd p)"
    and ct: "\<forall>x\<in>set (tl p). \<not> matches FIND_SECTION_PART_BEGIN_REGEX x"
    by simp_all
  have pn: "SanitizerSectionPart ?n (h # cs) = Inr ?none"
    using other_leak_part [OF _ nd ct] p by simp
  have rest: "\<forall>p\<in>set ps. p \<noteq> [] \<and> matches FIND_SECTION_PART_BEGIN_REGEX (hd p)
              \<and> \<not> matches DIRECT_LEAK_BEGIN (hd p)
              \<and> (\<forall>x\<in>set (tl p). \<not> matches FIND_SECTION_PART_BEGIN_REGEX x)"
    using Cons.prems(1) by simp
  let ?tail = "concat ps @ d # rest"
  have a: "section_loop ?n (h # cs @ ?tail) cur subs
             = (case SanitizerSectionPart ?n cur of
                  Inl e \<Rightarrow> Inl e
                | Inr q \<Rightarrow> section_loop ?n (cs @ ?tail) [h] (subs @ [q]))"
    by (rule section_loop_head [OF h Cons.prems(2)])
  have b: "section_loop ?n (cs @ ?tail) [h] subs' = section_loop ?n ?tail (h # cs) subs'"
    for subs'
    using section_loop_cont [OF cs, of ?n ?tail "[h]" subs'] by simp
  have c: "section_loop ?n ?tail (h # cs) subs'
             = section_loop ?n rest [d] (subs' @ ?none # replicate (length ps) ?none)" for subs'
    using Cons.IH [OF rest, of "h # cs" subs'] pn by simp
  have "section_loop ?n (h # cs @ ?tail) cur subs
          = (case SanitizerSectionPart ?n cur of
               Inl e \<Rightarrow> Inl e
             | Inr q \<Rightarrow> section_loop ?n rest [d] (subs @ q # replicate (length (p # ps)) ?none))"
    unfolding a by (cases "SanitizerSectionPart ?n cur") (simp_all add: b c)
  then show ?case unfolding p by simp
qed


section \<open>Sections of detected memory leaks\<close>

text \<open>
  Claim C8 as stated fails when the stack trace of the direct leak has no line under
  \<open>/ros2\<close>: the section below has one direct-leak part and one indirect-leak part, and
  its construction raises instead of producing one stack trace.
\<close>

theorem direct_leak_counterexample:
  "SanitizerSection
     [''E: LSanitizer: detected memory leaks'', '''',
      ''Direct leak of 1 byte(s) in 1 object(s) allocated from:'', '' #0 f'', '''',
      ''Indirect leak of 1 byte(s) in 1 object(s) allocated from:'', '' #0 /ros2'', '''',
      ''SUMMARY: x'']
   = Inl AssertionError"
  by code_simp


text \<open>
  Claim C8, amended. Take a section of detected memory leaks: the header part, then any
  parts that do not begin with a \<open>Direct leak\<close> line (the part of an \<open>Indirect leak\<close>
  is one), the part that begins with the \<open>Direct leak\<close> line \<open>d\<close> followed by its frame
  lines \<open>fs\<close>, and again any parts that do not begin with a \<open>Direct leak\<close> line, each
  part continued by lines that begin no part. If \<open>fs\<close> has an in-codebase frame, the
  section has exactly one relevant stack trace, the one of \<open>fs\<close>, in the direct-leak
  part; every other part has none, wherever it stands. If \<open>fs\<close> has no such frame, the
  construction of the section raises the error of that stack trace.
\<close>

theorem direct_leak_only:
  assumes name: "find_error_name [hdr] = Inr ''detected memory leaks''"
    and c0: "\<forall>x\<in>set c0. \<not> matches FIND_SECTION_PART_BEGIN_REGEX x"
    and before: "\<forall>p\<in>set before. p \<noteq> [] \<and> matches FIND_SECTION_PART_BEGIN_REGEX (hd p)
              \<and> \<not> matches DIRECT_LEAK_BEGIN (hd p)
              \<and> (\<forall>x\<in>set (tl p). \<not> matches FIND_SECTION_PART_BEGIN_REGEX x)"
    and d: "matches DIRECT_LEAK_BEGIN d"
    and fs: "fs \<noteq> []"
            "\<forall>x\<in>set fs. matches FIND_STACK_TRACE_LINE_REGEX x
                           \<and> \<not> matches FIND_SECTION_PART_BEGIN_REGEX x"
    and c1: "\<forall>x\<in>set c1. \<not> matches FIND_SECTION_PART_BEGIN_REGEX x"
            "c1 = [] \<or> \<not> matches FIND_STACK_TRACE_LINE_REGEX (hd c1)"
    and after: "\<forall>p\<in>set after. p \<noteq> [] \<and> matches FIND_SECTION_PART_BEGIN_REGEX (hd p)
              \<and> \<not> matches DIRECT_LEAK_BEGIN (hd p)
              \<and> (\<forall>x\<in>set (tl p). \<not> matches FIND_SECTION_PART_BEGIN_REGEX x)"
  shows "SanitizerSection (hdr # c0 @ concat before @ d # fs @ c1 @ concat after)
         = (case SanitizerSectionPartStackTrace fs of
              Inl e \<Rightarrow> Inl e
            | Inr t \<Rightarrow>
                Inr \<lparr>error_name = ''detected memory leaks'',
                     parts = replicate (Suc (length before)) \<lparr>relevant_stack_traces = []\<rparr>
                             @ \<lparr>relevant_stack_traces = [t]\<rparr>
                             # replicate (length after) \<lparr>relevant_stack_traces = []\<rparr>\<rparr>)"
proof -
  let ?n = "''detected memory leaks''"
  let ?none = "\<lparr>relevant_stack_traces = []\<rparr>"
  let ?R = "(fs @ c1) @ concat after"
  let ?subs = "replicate (Suc (length before)) ?none"
  have hdr: "\<not> matches DIRECT_LEAK_BEGIN hdr"
    using error_name_line_has_S [OF find_error_name_matches [OF name]] direct_leak_line_no_S
    by blast
  have p0: "SanitizerSectionPart ?n (hdr # c0) = Inr ?none"
    by (rule other_leak_part) (use hdr c0 in simp_all)
  have p1: "SanitizerSectionPart ?n (d # fs @ c1)
              = (case SanitizerSectionPartStackTrace fs of
                   Inl e \<Rightarrow> Inl e | Inr t \<Rightarrow> Inr \<lparr>relevant_stack_traces = [t]\<rparr>)"
    unfolding SanitizerSectionPart_def
    using direct_leak_part [OF d fs(1) _ c1(2), of SanitizerSectionPartStackTrace] fs(2)
    by (cases "SanitizerSectionPartStackTrace fs") simp_all
  have fc: "\<forall>x\<in>set (fs @ c1). \<not> matches FIND_SECTION_PART_BEGIN_REGEX x"
    using fs(2) c1(1) by auto
  have l0: "section_loop ?n (hdr # c0 @ concat before @ d # ?R) [] []
              = section_loop ?n (concat before @ d # ?R) (hdr # c0) []"
    using section_loop_cont [OF c0, of ?n "concat before @ d # ?R" "[hdr]" "[]"] by simp
  have l1: "section_loop ?n (concat before @ d # ?R) (hdr # c0) []
              = section_loop ?n ?R [d] ?subs"
    using section_loop_other_parts [OF before _ direct_leak_line_is_part_begin [OF d],
        of "hdr # c0" ?R "[]"] p0
    by simp
  have l2: "section_loop ?n ?R [d] ?subs = section_loop ?n (concat after) (d # fs @ c1) ?subs"
    using section_loop_cont [OF fc, of ?n "concat after" "[d]" ?subs] by simp
  have l3: "section_loop ?n (concat after) (d # fs @ c1) ?subs
              = (case SanitizerSectionPart ?n (d # fs @ c1) of
                   Inl e \<Rightarrow> Inl e
                 | Inr q \<Rightarrow> Inr (?subs @ q # replicate (length after) ?none))"
    by (rule section_loop_other_parts_end [OF after]) simp
  have loop: "section_loop ?n (hdr # c0 @ concat before @ d # ?R) [] []
                = (case SanitizerSectionPartStackTrace fs of
                     Inl e \<Rightarrow> Inl e
                   | Inr t \<Rightarrow> Inr (?subs @ \<lparr>relevant_stack_traces = [t]\<rparr>
                                      # replicate (length after) ?none))"
    unfolding l0 l1 l2 l3 using p1 by (cases "SanitizerSectionPartStackTrace fs") simp_all
  have loop': "section_loop ?n (hdr # c0 @ concat before @ d # fs @ c1 @ concat after) [] []
                = (case SanitizerSectionPartStackTrace fs of
                     Inl e \<Rightarrow> Inl e
                   | Inr t \<Rightarrow> Inr (?subs @ \<lparr>relevant_stack_traces = [t]\<rparr>
                                      # replicate (length after) ?none))"
    using loop by (simp del: section_loop.simps)
  have fe: "find_error_name (hdr # c0 @ concat before @ d # fs @ c1 @ concat after) = Inr ?n"
    using name by (simp add: find_error_name_def)
  show ?thesis
    unfolding SanitizerSection_def
    by (cases "SanitizerSectionPartStackTrace fs")
       (simp_all add: fe loop' del: section_loop.simps)
qed

theorem direct_leak_only_witness:
  "SanitizerSection
     (''E: LSanitizer: detected memory leaks'' # [''''] @
      concat [[''Indirect leak of 1 byte(s) in 1 object(s) allocated from:'', '' #0 /ros2/b'', '''']] @
      ''Direct leak of 1 byte(s) in 1 object(s) allocated from:'' # ['' #0 /ros2/a''] @ [''''] @
      concat [[''Indirect leak of 2 byte(s) in 1 object(s) allocated from:'', '' #0 /ros2/c'', ''''],
              [''SUMMARY: x'']])
   = Inr \<lparr>error_name = ''detected memory leaks'',
          parts = [\<lparr>relevant_stack_traces = []\<rparr>, \<lparr>relevant_stack_traces = []\<rparr>,
                   \<lparr>relevant_stack_traces = [\<lparr>key = ''/ros2/a''\<rparr>]\<rparr>,
                   \<lparr>relevant_stack_traces = []\<rparr>, \<lparr>relevant_stack_traces = []\<rparr>]\<rparr>"
proof -
  let ?before = "[[''Indirect leak of 1 byte(s) in 1 object(s) allocated from:'', '' #0 /ros2/b'', '''']]"
  let ?after = "[[''Indirect leak of 2 byte(s) in 1 object(s) allocated from:'', '' #0 /ros2/c'', ''''],
              [''SUMMARY: x'']]"
  have name: "find_error_name [''E: LSanitizer: detected memory leaks'']
                = Inr ''detected memory leaks''" by code_simp
  have c0: "\<forall>x\<in>set ['''']. \<not> matches FIND_SECTION_PART_BEGIN_REGEX x" by code_simp
  have before: "\<forall>p\<in>set ?before. p \<noteq> [] \<and> matches FIND_SECTION_PART_BEGIN_REGEX (hd p)
              \<and> \<not> matches DIRECT_LEAK_BEGIN (hd p)
              \<and> (\<forall>x\<in>set (tl p). \<not> matches FIND_SECTION_PART_BEGIN_REGEX x)"
    by code_simp
  have d: "matches DIRECT_LEAK_BEGIN ''Direct leak of 1 byte(s) in 1 object(s) allocated from:''"
    by code_simp
  have fs: "['' #0 /ros2/a''] \<noteq> []"
    "\<forall>x\<in>set ['' #0 /ros2/a'']. matches FIND_STACK_TRACE_LINE_REGEX x
                           \<and> \<not> matches FIND_SECTION_PART_BEGIN_REGEX x"
    by code_simp+
  have c1: "\<forall>x\<in>set ['''']. \<not> matches FIND_SECTION_PART_BEGIN_REGEX x"
    "[''''] = [] \<or> \<not> matches FIND_STACK_TRACE_LINE_REGEX (hd [''''])"
    by code_simp+
  have after: "\<forall>p\<in>set ?after. p \<noteq> [] \<and> matches FIND_SECTION_PART_BEGIN_REGEX (hd p)
              \<and> \<not> matches DIRECT_LEAK_BEGIN (hd p)
              \<and> (\<forall>x\<in>set (tl p). \<not> matches FIND_SECTION_PART_BEGIN_REGEX x)"
    by code_simp
  have k: "SanitizerSectionPartStackTrace ['' #0 /ros2/a''] = Inr \<lparr>key = ''/ros2/a''\<rparr>"
    by code_simp
  show ?thesis
    unfolding direct_leak_only [OF name c0 before d fs c1 after] k by simp
qed


section \<open>Parts of a data race\<close>

text \<open>
  Claim C7 as stated fails when one of the two stack traces has no line under \<open>/ros2\<close>:
  the part below has a \<open>Read\<close> line and a \<open>Previous write\<close> line, each followed by a
  frame line, and its construction raises instead of producing two stack traces.
\<close>

theorem data_race_counterexample:
  "matches DATA_RACE_BEGIN_1 '' Read of size 1 at 0x1 a''
   \<and> matches FIND_STACK_TRACE_LINE_REGEX '' #0 f''
   \<and> matches DATA_RACE_BEGIN_2 '' Previous write of size 1 at 0x1 b''
   \<and> matches FIND_STACK_TRACE_LINE_REGEX '' #0 /ros2''
   \<and> SanitizerSectionPart ''data race''
        ['' Read of size 1 at 0x1 a'', '' #0 f'',
         '' Previous write of size 1 at 0x1 b'', '' #0 /ros2'']
       = Inl AssertionError"
  by code_simp


text \<open>
  Claim C7, amended. In a part of a data race, let \<open>rw\<close> be the first line that matches
  the \<open>Read/Write of size N at ADDR\<close> pattern, followed by the frame lines \<open>fr1\<close>, and
  \<open>prev\<close> the first line after them that matches the \<open>Previous read/write\<close> pattern,
  followed by the frame lines \<open>fr2\<close>. If both \<open>fr1\<close> and \<open>fr2\<close> have an in-codebase
  frame, the part has exactly two stack traces, the one of \<open>fr1\<close> first and the one of
  \<open>fr2\<close> second. If one of them has none, the construction of the part raises.
\<close>

theorem data_race_two_traces:
  assumes pre: "\<forall>x\<in>set pre. \<not> matches DATA_RACE_BEGIN_1 x"
    and rw: "matches DATA_RACE_BEGIN_1 rw"
    and fr1: "fr1 \<noteq> []" "\<forall>x\<in>set fr1. matches FIND_STACK_TRACE_LINE_REGEX x"
    and mid: "mid = [] \<or> \<not> matches FIND_STACK_TRACE_LINE_REGEX (hd mid)"
             "\<forall>x\<in>set mid. \<not> matches DATA_RACE_BEGIN_2 x"
    and prev: "matches DATA_RACE_BEGIN_2 prev"
    and fr2: "fr2 \<noteq> []" "\<forall>x\<in>set fr2. matches FIND_STACK_TRACE_LINE_REGEX x"
    and post: "post = [] \<or> \<not> matches FIND_STACK_TRACE_LINE_REGEX (hd post)"
  shows "SanitizerSectionPart ''data race'' (pre @ rw # fr1 @ mid @ prev # fr2 @ post)
           = (case SanitizerSectionPartStackTrace fr1 of
                Inl e \<Rightarrow> Inl e
              | Inr t1 \<Rightarrow>
                  (case SanitizerSectionPartStackTrace fr2 of
                     Inl e \<Rightarrow> Inl e
                   | Inr t2 \<Rightarrow> Inr \<lparr>relevant_stack_traces = [t1, t2]\<rparr>))"
  unfolding SanitizerSectionPart_def
    data_race_part [OF pre rw fr1 mid prev fr2 post, of SanitizerSectionPartStackTrace]
  by (simp split: sum.splits)

theorem data_race_two_traces_witness:
  "SanitizerSectionPart ''data race''
     ([''W: TSanitizer: data race''] @ '' Write of size 8 at 0x7b a'' # ['' #0 /ros2/a'']
        @ [''''] @ '' Previous read of size 8 at 0x7b b'' # ['' #0 g'', '' #1 0x2 in /ros2/b'']
        @ [])
   = Inr \<lparr>relevant_stack_traces = [\<lparr>key = ''/ros2/a''\<rparr>, \<lparr>key = ''/ros2/b''\<rparr>]\<rparr>"
proof -
  have pre: "\<forall>x\<in>set [''W: TSanitizer: data race'']. \<not> matches DATA_RACE_BEGIN_1 x"
    by code_simp
  have rw: "matches DATA_RACE_BEGIN_1 '' Write of size 8 at 0x7b a''" by code_simp
  have fr1: "['' #0 /ros2/a''] \<noteq> []"
    "\<forall>x\<in>set ['' #0 /ros2/a'']. matches FIND_STACK_TRACE_LINE_REGEX x"
    by code_simp+
  have mid: "[''''] = [] \<or> \<not> matches FIND_STACK_TRACE_LINE_REGEX (hd [''''])"
    "\<forall>x\<in>set ['''']. \<not> matches DATA_RACE_BEGIN_2 x"
    by code_simp+
  have prev: "matches DATA_RACE_BEGIN_2 '' Previous read of size 8 at 0x7b b''" by code_simp
  have fr2: "['' #0 g'', '' #1 0x2 in /ros2/b''] \<noteq> []"
    "\<forall>x\<in>set ['' #0 g'', '' #1 0x2 in /ros2/b'']. matches FIND_STACK_TRACE_LINE_REGEX x"
    by code_simp+
  have post: "[] = [] \<or> \<not> matches FIND_STACK_TRACE_LINE_REGEX (hd [])" by simp
  have k1: "SanitizerSectionPartStackTrace ['' #0 /ros2/a''] = Inr \<lparr>key = ''/ros2/a''\<rparr>"
    by code_simp
  have k2: "SanitizerSectionPartStackTrace ['' #0 g'', '' #1 0x2 in /ros2/b'']
              = Inr \<lparr>key = ''/ros2/b''\<rparr>"
    by code_simp
  show ?thesis
    unfolding data_race_two_traces [OF pre rw fr1 mid prev fr2 post] k1 k2 by simp
qed

section \<open>First matches\<close>

lemma group_free_rmatch:
  "group_free r \<Longrightarrow> (g, rest) \<in> set (rmatch r s) \<Longrightarrow> g = []"
proof (induction r arbitrary: g rest s)
  case (Seq a b)
  from Seq.prems(2) obtain ga ra gb where
    "(ga, ra) \<in> set (rmatch a s)" "(gb, rest) \<in> set (rmatch b ra)" "g = ga @ gb"
    by auto
  with Seq.IH Seq.prems(1) show ?case by simp
qed (auto simp: rep_counts_def split: list.splits if_splits)

lemma group_free_seqs: "list_all group_free rs \<Longrightarrow> group_free (seqs rs)"
  by (induction rs rule: seqs.induct) simp_all

lemma group_free_Lit: "group_free (Lit w)"
  unfolding Lit_def by (rule group_free_seqs) (simp add: list_all_iff)

lemma map_case_prod_id: "map (\<lambda>(a, b). ([] @ a, b)) xs = xs"
  by (induction xs) auto

lemma rmatch_Seq_Rep:
  "rmatch (Seq (Rep g lo k) r) s
     = concat (map (\<lambda>i. rmatch r (drop i s))
                (rep_counts g lo (length (takeWhile (in_class k) s))))"
  by (simp add: comp_def map_case_prod_id)

lemma rmatch_Seq_Empty: "rmatch (Seq Empty r) s = rmatch r s"
  by (simp add: map_case_prod_id)

lemma rmatch_Seq_Chr:
  "rmatch (Seq (Chr c) r) s = (case s of [] \<Rightarrow> [] | x # xs \<Rightarrow> if x = c then rmatch r xs else [])"
  by (simp add: map_case_prod_id split: list.splits)

lemma rmatch_Seq_Alt: "rmatch (Seq (Alt a b) r) s = rmatch (Seq a r) s @ rmatch (Seq b r) s"
  by simp

lemma rmatch_Lit:
  "rmatch (Lit w) s = (if take (length w) s = w then [([], drop (length w) s)] else [])"
proof (induction w arbitrary: s)
  case Nil
  then show ?case by (simp add: Lit_def)
next
  case (Cons c w)
  show ?case
  proof (cases w)
    case Nil
    then show ?thesis by (cases s) (auto simp: Lit_def)
  next
    case (Cons c' w')
    then have "rmatch (Lit (c # w)) s = rmatch (Seq (Chr c) (Lit w)) s"
      by (simp add: Lit_def)
    then show ?thesis
      unfolding rmatch_Seq_Chr using Cons.IH by (cases s) auto
  qed
qed

lemma rmatch_Seq_Lit:
  "rmatch (Seq (Lit w) r) s
     = (if take (length w) s = w then rmatch r (drop (length w) s) else [])"
  by (simp add: rmatch_Lit map_case_prod_id)

lemma first_of_concat_map:
  "concat (map f xs) = y # ys \<Longrightarrow>
   \<exists>as x bs zs. xs = as @ x # bs \<and> (\<forall>a\<in>set as. f a = []) \<and> f x = y # zs"
proof (induction xs)
  case Nil
  then show ?case by simp
next
  case (Cons x xs)
  show ?case
  proof (cases "f x")
    case Nil
    with Cons.prems have "concat (map f xs) = y # ys" by simp
    from Cons.IH [OF this] obtain as x' bs zs where
      "xs = as @ x' # bs" "\<forall>a\<in>set as. f a = []" "f x' = y # zs" by blast
    with Nil have "x # xs = (x # as) @ x' # bs \<and> (\<forall>a\<in>set (x # as). f a = []) \<and> f x' = y # zs"
      by simp
    then show ?thesis by blast
  next
    case (Cons z zs)
    with Cons.prems have "f x = y # zs" by simp
    then have "x # xs = [] @ x # xs \<and> (\<forall>a\<in>set []. f a = []) \<and> f x = y # zs" by simp
    then show ?thesis by blast
  qed
qed

lemma first_of_concat_mapE:
  assumes "concat (map f xs) = y # ys"
  obtains as x bs zs where "xs = as @ x # bs" "\<forall>a\<in>set as. f a = []" "f x = y # zs"
  using first_of_concat_map [OF assms] by blast

lemma upt_split:
  "[lo..<n] = as @ j # bs \<Longrightarrow> as = [lo..<j] \<and> bs = [Suc j..<n] \<and> lo \<le> j \<and> j < n"
proof (induction as arbitrary: lo)
  case Nil
  then show ?case by (auto simp: upt_eq_Cons_conv)
next
  case (Cons a as)
  then have a: "lo < n" "a = lo" "[Suc lo..<n] = as @ j # bs"
    by (auto simp: upt_eq_Cons_conv)
  from Cons.IH [OF a(3)] have "as = [Suc lo..<j]" "bs = [Suc j..<n]" "Suc lo \<le> j" "j < n"
    by simp_all
  with a show ?case by (simp add: upt_conv_Cons)
qed

lemma rev_upt_split:
  assumes "rev [lo..<n] = as @ j # bs"
  shows "set as = {j<..<n} \<and> lo \<le> j \<and> j < n"
proof -
  have "[lo..<n] = rev (rev [lo..<n])" by simp
  also have "\<dots> = rev (as @ j # bs)" using assms by simp
  finally have "[lo..<n] = rev bs @ j # rev as" by simp
  from upt_split [OF this] have r: "rev as = [Suc j..<n]" and j: "lo \<le> j" "j < n"
    by blast+
  have "set (rev as) = {Suc j..<n}" by (simp only: r set_upt)
  then have "set as = {Suc j..<n}" by simp
  also have "\<dots> = {j<..<n}" by auto
  finally show ?thesis using j by simp
qed

lemma first_match_greedy:
  assumes "rmatch (Seq (Rep Greedy lo k) r) s = (g, rest) # other"
  shows "\<exists>i other'. lo \<le> i \<and> i \<le> length (takeWhile (in_class k) s)
           \<and> rmatch r (drop i s) = (g, rest) # other'
           \<and> (\<forall>i'. i < i' \<and> i' \<le> length (takeWhile (in_class k) s)
                  \<longrightarrow> rmatch r (drop i' s) = [])"
proof -
  let ?m = "length (takeWhile (in_class k) s)"
  from assms have "concat (map (\<lambda>i. rmatch r (drop i s)) (rev [lo..<Suc ?m])) = (g, rest) # other"
    by (simp only: rmatch_Seq_Rep rep_counts_def greed.case)
  then obtain as i bs zs where
    sp: "rev [lo..<Suc ?m] = as @ i # bs" and
    no: "\<forall>a\<in>set as. rmatch r (drop a s) = []" and
    hit: "rmatch r (drop i s) = (g, rest) # zs"
    by (rule first_of_concat_mapE)
  from rev_upt_split [OF sp] have "set as = {i<..<Suc ?m}" "lo \<le> i" "i < Suc ?m" by simp_all
  with no hit show ?thesis by (intro exI [of _ i] exI [of _ zs]) auto
qed

lemma first_match_lazy_group:
  assumes "rmatch (Seq (Grp n (Rep Lazy lo k)) r) s = (g, rest) # other"
  shows "\<exists>j gb other'. lo \<le> j \<and> j \<le> length (takeWhile (in_class k) s)
           \<and> g = (n, take j s) # gb
           \<and> rmatch r (drop j s) = (gb, rest) # other'
           \<and> (\<forall>j'. lo \<le> j' \<and> j' < j \<longrightarrow> rmatch r (drop j' s) = [])"
proof -
  let ?m = "length (takeWhile (in_class k) s)"
  let ?f = "\<lambda>j. map (\<lambda>(gb, rb). ((n, take (length s - length (drop j s)) s) # gb, rb))
                   (rmatch r (drop j s))"
  from assms have "concat (map ?f [lo..<Suc ?m]) = (g, rest) # other"
    by (simp add: rep_counts_def comp_def del: upt_Suc)
  then obtain as j bs zs where
    sp: "[lo..<Suc ?m] = as @ j # bs" and
    no: "\<forall>a\<in>set as. ?f a = []" and
    hit: "?f j = (g, rest) # zs"
    by (rule first_of_concat_mapE)
  from upt_split [OF sp] have as: "as = [lo..<j]" and j: "lo \<le> j" "j < Suc ?m" by simp_all
  have jl: "j \<le> length s" using j(2) length_takeWhile_le [of "in_class k" s] by simp
  from hit obtain gb other' where
    h: "rmatch r (drop j s) = (gb, rest) # other'"
       "g = (n, take (length s - length (drop j s)) s) # gb"
    by (cases "rmatch r (drop j s)") auto
  have "length s - length (drop j s) = j" using jl by simp
  with h(2) have g: "g = (n, take j s) # gb" by simp
  from no as have "\<forall>j'. lo \<le> j' \<and> j' < j \<longrightarrow> rmatch r (drop j' s) = []" by simp
  with j h(1) g show ?thesis by (intro exI [of _ j] exI [of _ gb] exI [of _ other']) simp
qed

lemma prefix_take: "length w = n \<Longrightarrow> (\<exists>r. v = w @ r) \<longleftrightarrow> take n v = w"
  by (metis append_eq_conv_conj append_take_drop_id)

lemma rests_Rep_nonempty:
  "rests (Rep g lo k) s \<noteq> {} \<longleftrightarrow> lo \<le> length (takeWhile (in_class k) s)"
  by (auto simp: rests_Rep)

lemma takeWhile_pos: "1 \<le> length (takeWhile P xs) \<longleftrightarrow> (case xs of [] \<Rightarrow> False | h # rest \<Rightarrow> P h)"
  by (cases xs) auto

lemma spaces_to_end:
  "rests (Seq (Rep Greedy 0 Space) Eol) v \<noteq> {} \<longleftrightarrow> list_all isspace v"
proof
  assume "rests (Seq (Rep Greedy 0 Space) Eol) v \<noteq> {}"
  then obtain x where x: "x \<in> rests (Rep Greedy 0 Space) v" "rests Eol x \<noteq> {}"
    unfolding rests_Seq by blast
  from rests_Rep_split [OF x(1)] obtain pre where
    p: "v = pre @ x" "\<forall>c\<in>set pre. in_class Space c" by blast
  from x(2) have "x = [] \<or> x = [newline]" by (simp split: if_splits)
  then have "\<forall>c\<in>set x. isspace c" by (auto simp: isspace_def newline_def)
  with p show "list_all isspace v" by (auto simp: list_all_iff)
next
  assume a: "list_all isspace v"
  then have tw: "takeWhile (in_class Space) v = v"
    by (simp add: list_all_iff in_class_Space_eq)
  have "length v \<le> length (takeWhile (in_class Space) v)" unfolding tw by simp
  then have "drop (length v) v \<in> rests (Rep Greedy 0 Space) v"
    unfolding rests_Rep by blast
  then have "[] \<in> rests (Rep Greedy 0 Space) v" by simp
  moreover have "rests Eol [] \<noteq> {}" by simp
  ultimately show "rests (Seq (Rep Greedy 0 Space) Eol) v \<noteq> {}"
    unfolding rests_Seq by blast
qed

lemma rmatch_rests_Nil: "rmatch r s = [] \<longleftrightarrow> rests r s = {}"
  by (simp add: rests_def)

lemma take_within_class:
  assumes "i \<le> length (takeWhile P s)"
  shows "\<forall>c\<in>set (take i s). P c"
proof -
  have ta: "i \<le> length a \<Longrightarrow> take i (a @ b) = take i a" for a b :: "'a list"
    by simp
  have "take i s = take i (takeWhile P s)"
    using ta [OF assms, of "dropWhile P s"] by simp
  then show ?thesis by (metis in_set_takeD set_takeWhileD)
qed

lemma class_prefix_length:
  assumes "s = p @ r" and "\<forall>c\<in>set p. P c"
  shows "length p \<le> length (takeWhile P s)"
proof -
  have "takeWhile P (p @ r) = p @ takeWhile P r"
    by (rule takeWhile_append2) (use assms(2) in blast)
  then show ?thesis unfolding assms(1) by simp
qed

lemma drop_in_rests_Rep:
  "lo \<le> j \<Longrightarrow> j \<le> length (takeWhile (in_class k) s) \<Longrightarrow> drop j s \<in> rests (Rep g lo k) s"
  unfolding rests_Rep by blast


lemma concat_map_single:
  assumes "distinct xs" and "\<forall>x\<in>set xs. x \<noteq> a \<longrightarrow> f x = []"
  shows "concat (map f xs) = (if a \<in> set xs then f a else [])"
  using assms by (induction xs) auto

lemma rep_counts_distinct: "distinct (rep_counts g lo hi)"
  by (cases g) (simp_all add: rep_counts_def)

lemma rep_counts_set: "set (rep_counts g lo hi) = {lo..hi}"
  by (cases g) (auto simp: rep_counts_def)

lemma concat_map_rep_counts:
  assumes "\<And>i. i < m \<Longrightarrow> f i = []"
  shows "concat (map f (rep_counts g lo m)) = (if lo \<le> m then f m else [])"
proof -
  have "\<forall>x\<in>set (rep_counts g lo m). x \<noteq> m \<longrightarrow> f x = []"
    using assms by (simp add: rep_counts_set)
  from concat_map_single [OF rep_counts_distinct this]
  show ?thesis by (simp add: rep_counts_set)
qed

lemma rmatch_Seq_Rep_stop:
  assumes "\<And>i. i < length (takeWhile (in_class k) s) \<Longrightarrow> rmatch r (drop i s) = []"
  shows "rmatch (Seq (Rep g lo k) r) s
           = (if lo \<le> length (takeWhile (in_class k) s)
              then rmatch r (dropWhile (in_class k) s) else [])"
  unfolding rmatch_Seq_Rep
  using concat_map_rep_counts [of "length (takeWhile (in_class k) s)" "\<lambda>i. rmatch r (drop i s)" g lo]
    assms
  by (simp add: dropWhile_eq_drop)

lemma rmatch_Seq_Grp_Rep:
  "rmatch (Seq (Grp n (Rep g lo k)) r) s
     = concat (map (\<lambda>j. map (\<lambda>(gb, rb). ((n, take j s) # gb, rb)) (rmatch r (drop j s)))
                (rep_counts g lo (length (takeWhile (in_class k) s))))"
proof -
  let ?m = "length (takeWhile (in_class k) s)"
  let ?f = "\<lambda>j. map (\<lambda>(gb, rb). ((n, take (length s - length (drop j s)) s) # gb, rb))
                   (rmatch r (drop j s))"
  let ?h = "\<lambda>j. map (\<lambda>(gb, rb). ((n, take j s) # gb, rb)) (rmatch r (drop j s))"
  have a: "rmatch (Seq (Grp n (Rep g lo k)) r) s = concat (map ?f (rep_counts g lo ?m))"
    by (simp add: comp_def)
  have "?f j = ?h j" if "j \<in> set (rep_counts g lo ?m)" for j
  proof -
    from that have "j \<le> length s"
      using length_takeWhile_le [of "in_class k" s] by (simp add: rep_counts_set)
    then have "length s - length (drop j s) = j" by simp
    then show ?thesis by simp
  qed
  then have "map ?f (rep_counts g lo ?m) = map ?h (rep_counts g lo ?m)"
    by (rule map_cong [OF refl])
  then show ?thesis unfolding a by (rule arg_cong)
qed

lemma drop_in_class_run:
  assumes "i < length (takeWhile P s)"
  shows "\<exists>c rest. drop i s = c # rest \<and> P c"
proof -
  have "s = takeWhile P s @ dropWhile P s" by simp
  have il: "i < length s" using assms length_takeWhile_le [of P s] by simp
  have "s ! i = takeWhile P s ! i" using assms by (simp add: takeWhile_nth)
  moreover have "P (takeWhile P s ! i)" using assms nth_mem set_takeWhileD by metis
  ultimately have "P (s ! i)" by simp
  moreover have "drop i s = s ! i # drop (Suc i) s" using il by (simp add: Cons_nth_drop_Suc)
  ultimately show ?thesis by blast
qed


section \<open>The error name\<close>

lemma address_after_space:
  "rests (Seq (Lit '' 0x'') (Rep Greedy 1 HexLower)) v \<noteq> {}
     \<longleftrightarrow> take 3 v = '' 0x'' \<and> (case drop 3 v of [] \<Rightarrow> False | h # rest \<Rightarrow> ishex h)"
proof -
  have "rests (Seq (Lit '' 0x'') (Rep Greedy 1 HexLower)) v \<noteq> {}
          \<longleftrightarrow> (\<exists>r. v = '' 0x'' @ r \<and> rests (Rep Greedy 1 HexLower) r \<noteq> {})"
    unfolding rests_Seq rests_Lit by blast
  also have "\<dots> \<longleftrightarrow> (\<exists>r. v = '' 0x'' @ r \<and> (case r of [] \<Rightarrow> False | h # rest \<Rightarrow> ishex h))"
    unfolding rests_Rep_nonempty takeWhile_pos by (simp cong: list.case_cong)
  also have "\<dots> \<longleftrightarrow> take 3 v = '' 0x'' \<and> (case drop 3 v of [] \<Rightarrow> False | h # rest \<Rightarrow> ishex h)"
  proof
    assume "\<exists>r. v = '' 0x'' @ r \<and> (case r of [] \<Rightarrow> False | h # rest \<Rightarrow> ishex h)"
    then obtain r where "v = '' 0x'' @ r" "case r of [] \<Rightarrow> False | h # rest \<Rightarrow> ishex h" by blast
    then show "take 3 v = '' 0x'' \<and> (case drop 3 v of [] \<Rightarrow> False | h # rest \<Rightarrow> ishex h)"
      by simp
  next
    assume a: "take 3 v = '' 0x'' \<and> (case drop 3 v of [] \<Rightarrow> False | h # rest \<Rightarrow> ishex h)"
    have "v = take 3 v @ drop 3 v" by simp
    with a have "v = '' 0x'' @ drop 3 v" by metis
    with a show "\<exists>r. v = '' 0x'' @ r \<and> (case r of [] \<Rightarrow> False | h # rest \<Rightarrow> ishex h)"
      by blast
  qed
  finally show ?thesis .
qed

lemma error_name_end_rests: "rests ERROR_NAME_END v \<noteq> {} \<longleftrightarrow> name_end v"
proof -
  have a: "rests (Lit '' ('') v \<noteq> {} \<longleftrightarrow> take 2 v = '' (''"
    using prefix_take [of "'' (''" 2 v] by (simp add: rests_Lit)
  have "rests ERROR_NAME_END v
          = rests (Lit '' ('') v \<union> rests (Seq (Lit '' 0x'') (Rep Greedy 1 HexLower)) v
              \<union> rests (Seq (Rep Greedy 0 Space) Eol) v"
    unfolding ERROR_NAME_END_def by (simp only: rests_Alt seqs.simps Un_assoc)
  then show ?thesis
    unfolding name_end_def using a address_after_space [of v] spaces_to_end [of v] by blast
qed

lemma error_name_end_match: "rmatch ERROR_NAME_END v = [] \<longleftrightarrow> \<not> name_end v"
  unfolding rmatch_rests_Nil using error_name_end_rests [of v] by blast

lemma error_name_end_group_free: "group_free ERROR_NAME_END"
  by (simp add: ERROR_NAME_END_def group_free_Lit)

lemma FIND_ERROR_NAME_REGEX_unfold:
  "FIND_ERROR_NAME_REGEX =
     Seq (Rep Greedy 0 Dot)
       (Seq (Lit ''Sanitizer: '') (Seq (Grp ''error_name'' (Rep Lazy 1 Dot)) ERROR_NAME_END))"
  by (simp add: FIND_ERROR_NAME_REGEX_def ERROR_NAME_END_def)

lemma no_name_after_marker:
  assumes "rmatch (Seq (Grp n (Rep Lazy 1 Dot)) ERROR_NAME_END) u = []"
    and "1 \<le> j" and "j \<le> length (takeWhile (in_class Dot) u)"
  shows "\<not> name_end (drop j u)"
proof -
  from assms(1) have "rests (Seq (Grp n (Rep Lazy 1 Dot)) ERROR_NAME_END) u = {}"
    by (simp only: rmatch_rests_Nil)
  then have "\<forall>x\<in>rests (Rep Lazy 1 Dot) u. rests ERROR_NAME_END x = {}"
    unfolding rests_Seq rests_Grp by blast
  with drop_in_rests_Rep [OF assms(2,3)] have "rests ERROR_NAME_END (drop j u) = {}" by blast
  then show ?thesis using error_name_end_rests by blast
qed

lemma error_name_first_match:
  assumes "rmatch FIND_ERROR_NAME_REGEX h = (g, rest) # other"
  shows "\<exists>i j. i \<le> length (takeWhile (in_class Dot) h)
           \<and> take 11 (drop i h) = ''Sanitizer: ''
           \<and> 1 \<le> j \<and> j \<le> length (takeWhile (in_class Dot) (drop 11 (drop i h)))
           \<and> g = [(''error_name'', take j (drop 11 (drop i h)))]
           \<and> name_end (drop j (drop 11 (drop i h)))
           \<and> (\<forall>j'. 1 \<le> j' \<and> j' < j \<longrightarrow> \<not> name_end (drop j' (drop 11 (drop i h))))
           \<and> (\<forall>i' j'. i < i' \<and> i' \<le> length (takeWhile (in_class Dot) h)
                  \<and> take 11 (drop i' h) = ''Sanitizer: ''
                  \<and> 1 \<le> j' \<and> j' \<le> length (takeWhile (in_class Dot) (drop 11 (drop i' h)))
                  \<longrightarrow> \<not> name_end (drop j' (drop 11 (drop i' h))))"
proof -
  let ?M = "''Sanitizer: ''"
  let ?R2 = "Seq (Grp ''error_name'' (Rep Lazy 1 Dot)) ERROR_NAME_END"
  let ?m = "length (takeWhile (in_class Dot) h)"
  have len: "length ?M = 11" by simp
  from assms have "rmatch (Seq (Rep Greedy 0 Dot) (Seq (Lit ?M) ?R2)) h = (g, rest) # other"
    by (simp only: FIND_ERROR_NAME_REGEX_unfold)
  from first_match_greedy [OF this] obtain i o1 where
    i: "i \<le> ?m" and
    hit: "rmatch (Seq (Lit ?M) ?R2) (drop i h) = (g, rest) # o1" and
    later: "\<forall>i'. i < i' \<and> i' \<le> ?m \<longrightarrow> rmatch (Seq (Lit ?M) ?R2) (drop i' h) = []"
    by blast
  let ?u = "drop 11 (drop i h)"
  from hit have mk: "take 11 (drop i h) = ?M" and r2: "rmatch ?R2 ?u = (g, rest) # o1"
    unfolding rmatch_Seq_Lit len by (simp_all split: if_splits)
  from first_match_lazy_group [OF r2] obtain j gb o2 where
    j: "1 \<le> j" "j \<le> length (takeWhile (in_class Dot) ?u)" and
    g: "g = (''error_name'', take j ?u) # gb" and
    e: "rmatch ERROR_NAME_END (drop j ?u) = (gb, rest) # o2" and
    sh: "\<forall>j'. 1 \<le> j' \<and> j' < j \<longrightarrow> rmatch ERROR_NAME_END (drop j' ?u) = []"
    by blast
  from e have "(gb, rest) \<in> set (rmatch ERROR_NAME_END (drop j ?u))" by simp
  from group_free_rmatch [OF error_name_end_group_free this] have gb: "gb = []" .
  from e have ne: "name_end (drop j ?u)" using error_name_end_match [of "drop j ?u"] by auto
  from sh have sh': "\<forall>j'. 1 \<le> j' \<and> j' < j \<longrightarrow> \<not> name_end (drop j' ?u)"
    using error_name_end_match by blast
  have lt: "\<not> name_end (drop j' (drop 11 (drop i' h)))"
    if "i < i'" "i' \<le> ?m" "take 11 (drop i' h) = ?M" "1 \<le> j'"
       "j' \<le> length (takeWhile (in_class Dot) (drop 11 (drop i' h)))" for i' j'
  proof -
    from later that(1,2) have "rmatch (Seq (Lit ?M) ?R2) (drop i' h) = []" by blast
    then have "rmatch ?R2 (drop 11 (drop i' h)) = []"
      unfolding rmatch_Seq_Lit len using that(3) by simp
    from no_name_after_marker [OF this that(4,5)] show ?thesis .
  qed
  have gg: "g = [(''error_name'', take j ?u)]" using g gb by simp
  show ?thesis
  proof (rule exI [of _ i], rule exI [of _ j], intro conjI allI impI)
    show "i \<le> ?m" by (rule i)
    show "take 11 (drop i h) = ?M" by (rule mk)
    show "1 \<le> j" by (rule j(1))
    show "j \<le> length (takeWhile (in_class Dot) ?u)" by (rule j(2))
    show "g = [(''error_name'', take j ?u)]" by (rule gg)
    show "name_end (drop j ?u)" by (rule ne)
    show "\<not> name_end (drop j' ?u)" if "1 \<le> j' \<and> j' < j" for j'
      using sh' that by blast
    show "\<not> name_end (drop j' (drop 11 (drop i' h)))"
      if "i < i' \<and> i' \<le> ?m \<and> take 11 (drop i' h) = ?M \<and> 1 \<le> j'
           \<and> j' \<le> length (takeWhile (in_class Dot) (drop 11 (drop i' h)))" for i' j'
      using lt [of i' j'] that by blast
  qed
qed

text \<open>
  Claim C9 at a header whose error name has an open parenthesis that no space precedes.
  The comment in the constructor places the name before any open parenthesis or
  hexadecimal number, which is what the claim says and what \<^const>\<open>claimed_error_name\<close>
  computes. The pattern ends the name only at a space followed by an open parenthesis, at
  a space followed by an address, or at the end of the line: the parentheses of
  \<open>malloc()\<close> stay in the name, which runs on to the address.
\<close>

theorem error_name_counterexample:
  "find_error_name
     [''==1==ERROR: AddressSanitizer: attempting free on address which was not malloc()-ed: 0x602 in thread T0'']
     = Inr ''attempting free on address which was not malloc()-ed:''
   \<and> claimed_error_name
     ''==1==ERROR: AddressSanitizer: attempting free on address which was not malloc()-ed: 0x602 in thread T0''
     = Some ''attempting free on address which was not malloc''"
  by code_simp

text \<open>
  What the pattern extracts. When the error name of a header is found, the header is
  \<open>pre @ ''Sanitizer: '' @ u\<close> with no line break in \<open>pre\<close>, and the name is the shortest
  non-empty prefix of \<open>u\<close>, without a line break, that is followed by a space and an open
  parenthesis, by a space and an address (\<open>0x\<close> and a hexadecimal digit in lower case), or
  by white space only up to the end of the header. The marker is the last one in the
  header behind which there is such a name.
\<close>

lemma error_name_shape:
  assumes "find_error_name (header # other) = Inr name"
  shows "\<exists>pre u. header = pre @ ''Sanitizer: '' @ u \<and> newline \<notin> set pre
           \<and> name_after u name
           \<and> (\<forall>n. name_after u n \<longrightarrow> length name \<le> length n)
           \<and> (\<forall>pre' u' n. header = pre' @ ''Sanitizer: '' @ u' \<and> newline \<notin> set pre'
                  \<and> name_after u' n \<longrightarrow> length pre' \<le> length pre)"
proof -
  let ?M = "''Sanitizer: ''"
  let ?m = "length (takeWhile (in_class Dot) header)"
  from assms obtain g where g: "re_match FIND_ERROR_NAME_REGEX header = Some g"
    and n: "name = groupdict g ''error_name''"
    by (auto simp: find_error_name_def split: option.splits)
  from g obtain rest tail where "rmatch FIND_ERROR_NAME_REGEX header = (g, rest) # tail"
    by (auto simp: re_match_def split: list.splits)
  from error_name_first_match [OF this] obtain i j where
    i: "i \<le> ?m" and mk: "take 11 (drop i header) = ?M" and
    j: "1 \<le> j" "j \<le> length (takeWhile (in_class Dot) (drop 11 (drop i header)))" and
    gg: "g = [(''error_name'', take j (drop 11 (drop i header)))]" and
    ne: "name_end (drop j (drop 11 (drop i header)))" and
    sh: "\<forall>j'. 1 \<le> j' \<and> j' < j \<longrightarrow> \<not> name_end (drop j' (drop 11 (drop i header)))" and
    lt: "\<forall>i' j'. i < i' \<and> i' \<le> ?m \<and> take 11 (drop i' header) = ?M \<and> 1 \<le> j'
            \<and> j' \<le> length (takeWhile (in_class Dot) (drop 11 (drop i' header)))
            \<longrightarrow> \<not> name_end (drop j' (drop 11 (drop i' header)))"
    by blast
  let ?pre = "take i header"
  let ?u = "drop 11 (drop i header)"
  have nm: "name = take j ?u" using n gg by (simp add: groupdict_def)
  have il: "i \<le> length header" using i length_takeWhile_le [of "in_class Dot" header] by simp
  have jl: "j \<le> length ?u"
    using j(2) length_takeWhile_le [of "in_class Dot" ?u] by simp
  have "drop i header = take 11 (drop i header) @ ?u"
    by (rule append_take_drop_id [symmetric])
  then have di: "drop i header = ?M @ ?u" unfolding mk .
  have h: "header = ?pre @ ?M @ ?u" by (subst di [symmetric]) simp
  have lp: "length ?pre = i" using il by simp
  have ln: "length name = j" using nm jl by simp
  have p1: "newline \<notin> set ?pre" using take_within_class [OF i] by auto
  have p2: "newline \<notin> set name" unfolding nm using take_within_class [OF j(2)] by auto
  have na: "name_after ?u name"
    unfolding name_after_def ln using p2 j(1) ln nm ne by auto
  have mn: "length name \<le> length n'" if "name_after ?u n'" for n'
  proof (rule ccontr)
    assume "\<not> length name \<le> length n'"
    then have "length n' < j" using ln by simp
    moreover from that have "1 \<le> length n'" "name_end (drop (length n') ?u)"
      by (auto simp: name_after_def Suc_le_eq)
    ultimately show False using sh by blast
  qed
  have last: "length pre' \<le> length ?pre"
    if "header = pre' @ ?M @ u'" "newline \<notin> set pre'" "name_after u' n'" for pre' u' n'
  proof (rule ccontr)
    assume "\<not> length pre' \<le> length ?pre"
    then have a: "i < length pre'" unfolding lp by simp
    have b: "length pre' \<le> ?m"
      by (rule class_prefix_length [OF that(1)]) (use that(2) in auto)
    have dr: "drop (length pre') header = ?M @ u'" using that(1) by simp
    then have c: "take 11 (drop (length pre') header) = ?M" by simp
    from dr have u': "drop 11 (drop (length pre') header) = u'" by simp
    from that(3) have d: "1 \<le> length n'" and e: "name_end (drop (length n') u')"
      and f: "newline \<notin> set n'" and k: "take (length n') u' = n'"
      by (auto simp: name_after_def Suc_le_eq)
    have "u' = n' @ drop (length n') u'" using k by (metis append_take_drop_id)
    then have "length n' \<le> length (takeWhile (in_class Dot) u')"
      by (rule class_prefix_length) (use f in auto)
    with lt a b c d u' have "\<not> name_end (drop (length n') u')" by metis
    with e show False by blast
  qed
  show ?thesis
  proof (rule exI [of _ ?pre], rule exI [of _ ?u], intro conjI allI impI)
    show "header = ?pre @ ?M @ ?u" by (rule h)
    show "newline \<notin> set ?pre" by (rule p1)
    show "name_after ?u name" by (rule na)
    show "length name \<le> length n'" if "name_after ?u n'" for n' by (rule mn [OF that])
    show "length pre' \<le> length ?pre"
      if "header = pre' @ ?M @ u' \<and> newline \<notin> set pre' \<and> name_after u' n'" for pre' u' n'
      using last [of pre' u' n'] that by blast
  qed
qed

lemma error_name_shape_example:
  "find_error_name [''W: TSanitizer: lock-order-inversion (potential deadlock) (pid=1)'']
     = Inr ''lock-order-inversion''
   \<and> (\<exists>pre u. ''W: TSanitizer: lock-order-inversion (potential deadlock) (pid=1)''
                 = pre @ ''Sanitizer: '' @ u \<and> newline \<notin> set pre
           \<and> name_after u ''lock-order-inversion''
           \<and> (\<forall>n. name_after u n \<longrightarrow> length ''lock-order-inversion'' \<le> length n)
           \<and> (\<forall>pre' u' n. ''W: TSanitizer: lock-order-inversion (potential deadlock) (pid=1)''
                   = pre' @ ''Sanitizer: '' @ u' \<and> newline \<notin> set pre'
                  \<and> name_after u' n \<longrightarrow> length pre' \<le> length pre))"
proof -
  have h: "find_error_name [''W: TSanitizer: lock-order-inversion (potential deadlock) (pid=1)'']
             = Inr ''lock-order-inversion''"
    by code_simp
  from error_name_shape [OF h] h show ?thesis by blast
qed


section \<open>The pattern of a pending section\<close>

text \<open>The pattern of a pending section: the prefix, then the rest of the line.\<close>

lemma rmatch_line_group:
  "rmatch (Seq (Grp n (Rep Greedy 0 Dot)) Eol) u
     = (if dropWhile (in_class Dot) u = [] \<or> dropWhile (in_class Dot) u = [newline]
        then [([(n, takeWhile (in_class Dot) u)], dropWhile (in_class Dot) u)] else [])"
proof -
  let ?m = "length (takeWhile (in_class Dot) u)"
  let ?f = "\<lambda>j. map (\<lambda>(gb, rb). ((n, take j u) # gb, rb)) (rmatch Eol (drop j u))"
  have no: "?f i = []" if "i < ?m" for i
  proof -
    from drop_in_class_run [OF that] obtain c rest where
      d: "drop i u = c # rest" and c: "in_class Dot c" by blast
    from c have "c \<noteq> newline" by simp
    with d show ?thesis by simp
  qed
  have tk: "take ?m u = takeWhile (in_class Dot) u"
    by (rule takeWhile_eq_take [symmetric])
  have "rmatch (Seq (Grp n (Rep Greedy 0 Dot)) Eol) u = ?f ?m"
    unfolding rmatch_Seq_Grp_Rep using concat_map_rep_counts [of ?m ?f Greedy 0, OF no] by simp
  then show ?thesis by (simp add: tk dropWhile_eq_drop)
qed

lemma find_line_regex_of_unfold:
  "find_line_regex_of p = Seq (Lit p) (Seq (Grp ''line'' (Rep Greedy 0 Dot)) Eol)"
  by (simp add: find_line_regex_of_def)

lemma find_line_regex_match:
  "re_match (find_line_regex_of p) s
     = (if take (length p) s = p
          \<and> (dropWhile (in_class Dot) (drop (length p) s) = []
               \<or> dropWhile (in_class Dot) (drop (length p) s) = [newline])
        then Some [(''line'', takeWhile (in_class Dot) (drop (length p) s))] else None)"
  unfolding re_match_def find_line_regex_of_unfold rmatch_Seq_Lit rmatch_line_group
  by (simp del: dropWhile_eq_Nil_conv)

lemma rstrip_last: "rstrip s = [] \<or> \<not> isspace (last (rstrip s))"
proof (cases "dropWhile isspace (rev s)")
  case Nil
  then show ?thesis by (simp add: rstrip_def)
next
  case (Cons c cs)
  then have "\<not> isspace c" using hd_dropWhile [of isspace "rev s"] by (metis list.sel(1) list.simps(3))
  with Cons show ?thesis by (simp add: rstrip_def)
qed

lemma isspace_newline: "isspace newline"
  by (simp add: isspace_def newline_def)

text \<open>On a stripped line the group \<open>line\<close> is the line behind the prefix.\<close>

lemma find_line_regex_stripped:
  assumes "re_match (find_line_regex_of p) (rstrip line) = Some g"
  shows "rstrip line = p @ groupdict g ''line'' \<and> g = [(''line'', drop (length p) (rstrip line))]"
proof -
  let ?s = "rstrip line"
  let ?u = "drop (length p) ?s"
  from assms have tk: "take (length p) ?s = p"
    and e: "dropWhile (in_class Dot) ?u = [] \<or> dropWhile (in_class Dot) ?u = [newline]"
    and g: "g = [(''line'', takeWhile (in_class Dot) ?u)]"
    unfolding find_line_regex_match by (simp_all del: dropWhile_eq_Nil_conv split: if_splits)
  have s: "?s = p @ ?u" using tk by (metis append_take_drop_id)
  have "dropWhile (in_class Dot) ?u = []"
  proof (rule ccontr)
    assume "dropWhile (in_class Dot) ?u \<noteq> []"
    with e have d: "dropWhile (in_class Dot) ?u = [newline]" by blast
    have "?u = takeWhile (in_class Dot) ?u @ dropWhile (in_class Dot) ?u" by simp
    then have "?u = takeWhile (in_class Dot) ?u @ [newline]" unfolding d .
    then have "?s = (p @ takeWhile (in_class Dot) ?u) @ [newline]" using s by simp
    then have "?s \<noteq> [] \<and> last ?s = newline" by (metis last_snoc snoc_eq_iff_butlast)
    with rstrip_last [of line] isspace_newline show False by simp
  qed
  then have "takeWhile (in_class Dot) ?u = ?u"
    by (metis append_Nil2 takeWhile_dropWhile_id)
  with g s show ?thesis by (simp add: groupdict_def)
qed

lemma find_line_regex_text:
  assumes "newline \<notin> set l"
  shows "re_match (find_line_regex_of p) (p @ l) = Some [(''line'', l)]"
proof -
  have a: "\<forall>c\<in>set l. in_class Dot c" using assms by auto
  then have "takeWhile (in_class Dot) l = l" "dropWhile (in_class Dot) l = []"
    by (simp_all del: in_class.simps)
  then show ?thesis unfolding find_line_regex_match by simp
qed


section \<open>Routing a line to the pending sections\<close>

text \<open>
  Claim C3 as stated fails when a section start line carries a prefix that is pending.
  In the stream below a section with prefix \<open>ab\<close> is registered, then one with prefix
  \<open>a\<close>, then a second section with prefix \<open>ab\<close>: its empty buffer takes the place of
  the first one, before the section with prefix \<open>a\<close>. The line \<open>ab frame\<close>, which the
  patterns of both pending sections match, goes to the section registered last and not to
  the one registered earliest.
\<close>

theorem earliest_registered_counterexample:
  "add_lines SanitizerLogParser
     [''abERROR: XSanitizer: e1'', ''aERROR: XSanitizer: e2'', ''abERROR: XSanitizer: e3'',
      ''ab frame'']
   = Inr \<lparr>count_by_output_primary_key = [], package = None,
          lines_by_find_line_regex =
            [(find_line_regex_of ''ab'', [''ERROR: XSanitizer: e3'', '' frame'']),
             (find_line_regex_of ''a'', [''ERROR: XSanitizer: e2''])]\<rparr>
   \<and> matches (find_line_regex_of ''a'') ''ab frame''"
  by code_simp

text \<open>
  Claim C3, amended. The pending sections are tried in the order of the dictionary. A
  start line leaves that order as it is when its prefix is pending (the section it starts
  takes the place of the one it replaces) and puts a new prefix at the end. When the entry
  of the prefix \<open>p\<close> is the first whose pattern matches the stripped line, the stripped
  line is \<open>p\<close> followed by a text \<open>l\<close>, and \<open>l\<close> is appended to the buffer of that entry
  and of no other: the entries before it and after it keep their buffers, whether or not a
  later pattern matches the line too. On a summary line the section is then built from
  that buffer; the entry is removed and the keys are counted, or the error is raised with
  the entry still there.
\<close>

theorem first_matching_section_absorbs_line:
  assumes items: "lines_by_find_line_regex (register_start self (rstrip line))
                    = before @ (find_line_regex_of p, buf) # after"
    and dist: "distinct (map fst (lines_by_find_line_regex self))"
    and skip: "\<forall>x\<in>set before. re_match (fst x) (rstrip line) = None"
    and hit: "re_match (find_line_regex_of p) (rstrip line) \<noteq> None"
  shows "map fst (lines_by_find_line_regex (register_start self (rstrip line)))
           = (case re_match FIND_SECTION_START_LINE_REGEX (rstrip line) of
                None \<Rightarrow> map fst (lines_by_find_line_regex self)
              | Some gs \<Rightarrow>
                  if find_line_regex_of (groupdict gs ''prefix'')
                       \<in> fst ` set (lines_by_find_line_regex self)
                  then map fst (lines_by_find_line_regex self)
                  else map fst (lines_by_find_line_regex self)
                         @ [find_line_regex_of (groupdict gs ''prefix'')])
         \<and> (\<exists>l. rstrip line = p @ l
              \<and> add_line self line
                  = (let self' = (register_start self (rstrip line))
                           \<lparr>lines_by_find_line_regex :=
                              before @ (find_line_regex_of p, buf @ [l]) # after\<rparr>
                     in if re_match FIND_SECTION_END_LINE_REGEX (rstrip line) = None
                        then Inr self'
                        else (case SanitizerSection (buf @ [l]) of
                                Inl e \<Rightarrow> Inl (e, self')
                              | Inr sec \<Rightarrow>
                                  Inr (self'\<lparr>count_by_output_primary_key :=
                                               fold increment (section_keys (package self) sec)
                                                 (count_by_output_primary_key self),
                                             lines_by_find_line_regex := before @ after\<rparr>))))"
proof
  show "map fst (lines_by_find_line_regex (register_start self (rstrip line)))
           = (case re_match FIND_SECTION_START_LINE_REGEX (rstrip line) of
                None \<Rightarrow> map fst (lines_by_find_line_regex self)
              | Some gs \<Rightarrow>
                  if find_line_regex_of (groupdict gs ''prefix'')
                       \<in> fst ` set (lines_by_find_line_regex self)
                  then map fst (lines_by_find_line_regex self)
                  else map fst (lines_by_find_line_regex self)
                         @ [find_line_regex_of (groupdict gs ''prefix'')])"
    by (simp add: register_start_def update_keys split: option.splits)
next
  let ?l = "rstrip line"
  let ?rx = "find_line_regex_of p"
  let ?s = "register_start self ?l"
  from hit obtain g where g: "re_match ?rx ?l = Some g" by blast
  have pl: "?l = p @ groupdict g ''line''"
    by (rule conjunct1 [OF find_line_regex_stripped [OF g]])
  let ?buf = "buf @ [groupdict g ''line'']"
  let ?s' = "?s\<lparr>lines_by_find_line_regex := before @ (?rx, ?buf) # after\<rparr>"
  have cp: "count_by_output_primary_key ?s = count_by_output_primary_key self"
           "package ?s = package self"
    by (simp_all add: register_start_def split: option.splits)
  have d: "distinct (map fst (before @ (?rx, buf) # after))"
    using distinct_register_start [OF dist, of ?l] items by simp
  from skip g have nb: "?rx \<notin> fst ` set before" by force
  from d have na: "?rx \<notin> fst ` set after" by auto
  have up: "AList.update ?rx ?buf (lines_by_find_line_regex ?s) = before @ (?rx, ?buf) # after"
    using items update_first_entry [OF nb] by simp
  have del: "AList.delete ?rx (before @ (?rx, ?buf) # after) = before @ after"
    by (rule delete_only_entry [OF nb na])
  have run: "add_line self line = route ?s ?l ((?rx, buf) # after)"
    using route_skips [OF skip, of ?s "(?rx, buf) # after"] items
    by (simp add: add_line_def Let_def)
  have "add_line self line
          = (let self' = ?s'
             in if re_match FIND_SECTION_END_LINE_REGEX ?l = None
                then Inr self'
                else (case SanitizerSection ?buf of
                        Inl e \<Rightarrow> Inl (e, self')
                      | Inr sec \<Rightarrow>
                          Inr (self'\<lparr>count_by_output_primary_key :=
                                       fold increment (section_keys (package self) sec)
                                         (count_by_output_primary_key self),
                                     lines_by_find_line_regex := before @ after\<rparr>)))"
  proof (cases "re_match FIND_SECTION_END_LINE_REGEX ?l")
    case None
    then show ?thesis using run g up by (simp add: Let_def)
  next
    case (Some e)
    show ?thesis
    proof (cases "SanitizerSection ?buf")
      case (Inl err)
      then show ?thesis using run g up Some by (simp add: Let_def)
    next
      case (Inr sec)
      then show ?thesis using run g up Some del cp by (simp add: Let_def)
    qed
  qed
  with pl show "\<exists>l. rstrip line = p @ l
              \<and> add_line self line
                  = (let self' = (register_start self (rstrip line))
                           \<lparr>lines_by_find_line_regex :=
                              before @ (find_line_regex_of p, buf @ [l]) # after\<rparr>
                     in if re_match FIND_SECTION_END_LINE_REGEX (rstrip line) = None
                        then Inr self'
                        else (case SanitizerSection (buf @ [l]) of
                                Inl e \<Rightarrow> Inl (e, self')
                              | Inr sec \<Rightarrow>
                                  Inr (self'\<lparr>count_by_output_primary_key :=
                                               fold increment (section_keys (package self) sec)
                                                 (count_by_output_primary_key self),
                                             lines_by_find_line_regex := before @ after\<rparr>)))"
    by (intro exI [of _ "groupdict g ''line''"] conjI)
qed

theorem first_matching_section_absorbs_line_witness:
  "add_line
     \<lparr>count_by_output_primary_key = [], package = None,
      lines_by_find_line_regex =
        [(find_line_regex_of ''zz'', []), (find_line_regex_of ''ab'', [''old'']),
         (find_line_regex_of ''a'', [''x''])]\<rparr>
     ''abERROR: XSanitizer: e  ''
   = Inr \<lparr>count_by_output_primary_key = [], package = None,
          lines_by_find_line_regex =
            [(find_line_regex_of ''zz'', []), (find_line_regex_of ''ab'', [''ERROR: XSanitizer: e'']),
             (find_line_regex_of ''a'', [''x''])]\<rparr>
   \<and> re_match (find_line_regex_of ''a'') (rstrip ''abERROR: XSanitizer: e  '') \<noteq> None"
proof -
  let ?self = "\<lparr>count_by_output_primary_key = [], package = None,
      lines_by_find_line_regex =
        [(find_line_regex_of ''zz'', []), (find_line_regex_of ''ab'', [''old'']),
         (find_line_regex_of ''a'', [''x''])]\<rparr>"
  let ?line = "''abERROR: XSanitizer: e  ''"
  have rg: "register_start ?self (rstrip ?line)
              = \<lparr>count_by_output_primary_key = [], package = None,
                 lines_by_find_line_regex =
                   [(find_line_regex_of ''zz'', []), (find_line_regex_of ''ab'', []),
                    (find_line_regex_of ''a'', [''x''])]\<rparr>"
    by code_simp
  have items: "lines_by_find_line_regex (register_start ?self (rstrip ?line))
                 = [(find_line_regex_of ''zz'', [])] @ (find_line_regex_of ''ab'', [])
                     # [(find_line_regex_of ''a'', [''x''])]"
    unfolding rg by simp
  have dist: "distinct (map fst (lines_by_find_line_regex ?self))" by code_simp
  have skip: "\<forall>x\<in>set [(find_line_regex_of ''zz'', [])]. re_match (fst x) (rstrip ?line) = None"
    by code_simp
  have hit: "re_match (find_line_regex_of ''ab'') (rstrip ?line) \<noteq> None" by code_simp
  have later: "re_match (find_line_regex_of ''a'') (rstrip ?line) \<noteq> None" by code_simp
  have rs: "rstrip ?line = ''abERROR: XSanitizer: e''" by code_simp
  have e: "re_match FIND_SECTION_END_LINE_REGEX (rstrip ?line) = None" by code_simp
  from first_matching_section_absorbs_line [OF items dist skip hit]
  obtain l where l: "rstrip ?line = ''ab'' @ l"
    and run: "add_line ?self ?line
       = (let self' = (register_start ?self (rstrip ?line))
                \<lparr>lines_by_find_line_regex :=
                   [(find_line_regex_of ''zz'', [])] @ (find_line_regex_of ''ab'', [] @ [l])
                     # [(find_line_regex_of ''a'', [''x''])]\<rparr>
          in if re_match FIND_SECTION_END_LINE_REGEX (rstrip ?line) = None
             then Inr self'
             else (case SanitizerSection ([] @ [l]) of
                     Inl e \<Rightarrow> Inl (e, self')
                   | Inr sec \<Rightarrow>
                       Inr (self'\<lparr>count_by_output_primary_key :=
                                    fold increment (section_keys (package ?self) sec)
                                      (count_by_output_primary_key ?self),
                                  lines_by_find_line_regex :=
                                    [(find_line_regex_of ''zz'', [])]
                                      @ [(find_line_regex_of ''a'', [''x''])]\<rparr>)))"
    by blast
  from l have "l = ''ERROR: XSanitizer: e''" unfolding rs by simp
  with run have "add_line ?self ?line
     = Inr \<lparr>count_by_output_primary_key = [], package = None,
          lines_by_find_line_regex =
            [(find_line_regex_of ''zz'', []), (find_line_regex_of ''ab'', [''ERROR: XSanitizer: e'']),
             (find_line_regex_of ''a'', [''x''])]\<rparr>"
    unfolding e rg by (simp add: Let_def)
  with later show ?thesis by blast
qed


section \<open>The same section twice\<close>

lemma route_to_key:
  assumes "\<forall>x\<in>set items. fst x \<noteq> r \<longrightarrow> re_match (fst x) l = None"
    and "map_of items r = Some buf"
    and "re_match r l = Some g"
  shows "route s l items = route s l [(r, buf)]"
  using assms
proof (induction items)
  case Nil
  then show ?case by simp
next
  case (Cons a items)
  obtain r' b where a: "a = (r', b)" by (cases a)
  show ?case
  proof (cases "r' = r")
    case True
    with Cons.prems(2) a have "b = buf" by simp
    with True a Cons.prems(3) show ?thesis by (simp add: Let_def)
  next
    case False
    with Cons.prems a have "re_match r' l = None" "map_of items r = Some buf"
      "\<forall>x\<in>set items. fst x \<noteq> r \<longrightarrow> re_match (fst x) l = None" by auto
    with Cons.IH Cons.prems(3) a show ?thesis by simp
  qed
qed

lemma update_other_entries:
  "x \<in> set (AList.update k v al) \<Longrightarrow> fst x \<noteq> k \<Longrightarrow> x \<in> set al"
  by (induction al) (auto split: if_splits)

lemma delete_entries: "x \<in> set (AList.delete k al) \<Longrightarrow> x \<in> set al"
  by (auto simp: AList.delete_eq)

text \<open>
  A line of the section with prefix \<open>p\<close>, in a parser where no other pending pattern
  matches it and the section holds the lines \<open>buf\<close>.
\<close>

lemma route_section_line:
  assumes pend: "lines_by_find_line_regex s = AList.update (find_line_regex_of p) buf its"
    and others: "\<forall>x\<in>set its. fst x \<noteq> find_line_regex_of p \<longrightarrow> re_match (fst x) (p @ l) = None"
    and nl: "newline \<notin> set l"
  shows "route s (p @ l) (lines_by_find_line_regex s)
           = (if re_match FIND_SECTION_END_LINE_REGEX (p @ l) = None
              then Inr (s\<lparr>lines_by_find_line_regex :=
                            AList.update (find_line_regex_of p) (buf @ [l]) its\<rparr>)
              else (case SanitizerSection (buf @ [l]) of
                      Inl e \<Rightarrow> Inl (e, s\<lparr>lines_by_find_line_regex :=
                                          AList.update (find_line_regex_of p) (buf @ [l]) its\<rparr>)
                    | Inr sec \<Rightarrow>
                        Inr (s\<lparr>count_by_output_primary_key :=
                                 fold increment (section_keys (package s) sec)
                                   (count_by_output_primary_key s),
                               lines_by_find_line_regex :=
                                 AList.delete (find_line_regex_of p) its\<rparr>)))"
proof -
  let ?r = "find_line_regex_of p"
  have g: "re_match ?r (p @ l) = Some [(''line'', l)]" by (rule find_line_regex_text [OF nl])
  have o: "\<forall>x\<in>set (lines_by_find_line_regex s). fst x \<noteq> ?r \<longrightarrow> re_match (fst x) (p @ l) = None"
  proof (intro ballI impI)
    fix x
    assume x: "x \<in> set (lines_by_find_line_regex s)" and n: "fst x \<noteq> ?r"
    from x have "x \<in> set (AList.update ?r buf its)" unfolding pend .
    from update_other_entries [OF this n] have "x \<in> set its" .
    with others n show "re_match (fst x) (p @ l) = None" by simp
  qed
  have m: "map_of (lines_by_find_line_regex s) ?r = Some buf"
    unfolding pend by (simp add: update_conv')
  have "route s (p @ l) (lines_by_find_line_regex s) = route s (p @ l) [(?r, buf)]"
    by (rule route_to_key [OF o m g])
  then show ?thesis
    by (simp add: g pend Let_def groupdict_def delete_update_same split: sum.splits)
qed

lemma add_line_section_line:
  assumes pend: "lines_by_find_line_regex s = AList.update (find_line_regex_of p) buf its"
    and nostart: "re_match FIND_SECTION_START_LINE_REGEX (rstrip line) = None"
    and others: "\<forall>x\<in>set its. fst x \<noteq> find_line_regex_of p
                    \<longrightarrow> re_match (fst x) (rstrip line) = None"
    and tx: "rstrip line = p @ l" and nl: "newline \<notin> set l"
  shows "add_line s line
           = (if re_match FIND_SECTION_END_LINE_REGEX (rstrip line) = None
              then Inr (s\<lparr>lines_by_find_line_regex :=
                            AList.update (find_line_regex_of p) (buf @ [l]) its\<rparr>)
              else (case SanitizerSection (buf @ [l]) of
                      Inl e \<Rightarrow> Inl (e, s\<lparr>lines_by_find_line_regex :=
                                          AList.update (find_line_regex_of p) (buf @ [l]) its\<rparr>)
                    | Inr sec \<Rightarrow>
                        Inr (s\<lparr>count_by_output_primary_key :=
                                 fold increment (section_keys (package s) sec)
                                   (count_by_output_primary_key s),
                               lines_by_find_line_regex :=
                                 AList.delete (find_line_regex_of p) its\<rparr>)))"
proof -
  have r: "register_start s (rstrip line) = s" using nostart by (simp add: register_start_def)
  have o: "\<forall>x\<in>set its. fst x \<noteq> find_line_regex_of p \<longrightarrow> re_match (fst x) (p @ l) = None"
    using others unfolding tx .
  show ?thesis
    unfolding add_line_def Let_def r unfolding tx by (rule route_section_line [OF pend o nl])
qed

lemma add_line_start_line:
  assumes start: "re_match FIND_SECTION_START_LINE_REGEX (rstrip line) = Some gs"
                 "groupdict gs ''prefix'' = p"
    and noend: "re_match FIND_SECTION_END_LINE_REGEX (rstrip line) = None"
    and others: "\<forall>x\<in>set (lines_by_find_line_regex s). fst x \<noteq> find_line_regex_of p
                    \<longrightarrow> re_match (fst x) (rstrip line) = None"
    and tx: "rstrip line = p @ l" and nl: "newline \<notin> set l"
  shows "add_line s line
           = Inr (s\<lparr>lines_by_find_line_regex :=
                      AList.update (find_line_regex_of p) [l] (lines_by_find_line_regex s)\<rparr>)"
proof -
  let ?r = "find_line_regex_of p"
  let ?its = "lines_by_find_line_regex s"
  let ?s1 = "s\<lparr>lines_by_find_line_regex := AList.update ?r [] ?its\<rparr>"
  have r: "register_start s (rstrip line) = ?s1" using start by (simp add: register_start_def)
  have pend: "lines_by_find_line_regex ?s1 = AList.update ?r [] ?its" by simp
  have o: "\<forall>x\<in>set ?its. fst x \<noteq> ?r \<longrightarrow> re_match (fst x) (p @ l) = None"
    using others unfolding tx .
  have e: "re_match FIND_SECTION_END_LINE_REGEX (p @ l) = None" using noend unfolding tx .
  have "route ?s1 (p @ l) (lines_by_find_line_regex ?s1)
          = Inr (?s1\<lparr>lines_by_find_line_regex := AList.update ?r ([] @ [l]) ?its\<rparr>)"
    unfolding route_section_line [OF pend o nl] using e by simp
  then show ?thesis unfolding add_line_def Let_def r unfolding tx by simp
qed

lemma add_lines_append:
  "add_lines s (xs @ ys) = (case add_lines s xs of Inl e \<Rightarrow> Inl e | Inr s' \<Rightarrow> add_lines s' ys)"
  by (induction xs arbitrary: s) (simp_all split: sum.splits)

lemma add_lines_body:
  assumes "map rstrip mid = map ((@) p) body"
    and "\<forall>x\<in>set mid. re_match FIND_SECTION_START_LINE_REGEX (rstrip x) = None"
    and "\<forall>x\<in>set mid. re_match FIND_SECTION_END_LINE_REGEX (rstrip x) = None"
    and "\<forall>x\<in>set its. fst x \<noteq> find_line_regex_of p
            \<longrightarrow> (\<forall>y\<in>set mid. re_match (fst x) (rstrip y) = None)"
    and "\<forall>l\<in>set body. newline \<notin> set l"
  shows "add_lines (s\<lparr>lines_by_find_line_regex := AList.update (find_line_regex_of p) buf its\<rparr>) mid
           = Inr (s\<lparr>lines_by_find_line_regex :=
                      AList.update (find_line_regex_of p) (buf @ body) its\<rparr>)"
  using assms
proof (induction mid arbitrary: body buf)
  case Nil
  then show ?case by simp
next
  case (Cons x mid)
  from Cons.prems(1) obtain b bs where body: "body = b # bs" and b: "rstrip x = p @ b"
    and bs: "map rstrip mid = map ((@) p) bs"
    by (cases body) auto
  let ?s = "s\<lparr>lines_by_find_line_regex := AList.update (find_line_regex_of p) buf its\<rparr>"
  have pend: "lines_by_find_line_regex ?s = AList.update (find_line_regex_of p) buf its" by simp
  have st: "re_match FIND_SECTION_START_LINE_REGEX (rstrip x) = None" using Cons.prems(2) by simp
  have en: "re_match FIND_SECTION_END_LINE_REGEX (rstrip x) = None" using Cons.prems(3) by simp
  have ot: "\<forall>y\<in>set its. fst y \<noteq> find_line_regex_of p \<longrightarrow> re_match (fst y) (rstrip x) = None"
    using Cons.prems(4) by simp
  have nl: "newline \<notin> set b" using Cons.prems(5) body by simp
  have step: "add_line ?s x
                = Inr (s\<lparr>lines_by_find_line_regex :=
                           AList.update (find_line_regex_of p) (buf @ [b]) its\<rparr>)"
    unfolding add_line_section_line [OF pend st ot b nl] using en by simp
  have ih: "add_lines (s\<lparr>lines_by_find_line_regex :=
                           AList.update (find_line_regex_of p) (buf @ [b]) its\<rparr>) mid
              = Inr (s\<lparr>lines_by_find_line_regex :=
                         AList.update (find_line_regex_of p) ((buf @ [b]) @ bs) its\<rparr>)"
    by (rule Cons.IH [OF bs]) (use Cons.prems body in simp_all)
  show ?case unfolding body using step ih by simp
qed

text \<open>One pass over the lines of a section.\<close>

lemma one_pass:
  assumes start: "re_match FIND_SECTION_START_LINE_REGEX (rstrip opening) = Some gs"
                 "groupdict gs ''prefix'' = p"
    and tx: "rstrip opening = p @ header" "map rstrip mid = map ((@) p) body"
             "rstrip closing = p @ summary"
    and nl: "\<forall>l\<in>set (header # body @ [summary]). newline \<notin> set l"
    and nostart: "\<forall>x\<in>set (mid @ [closing]). re_match FIND_SECTION_START_LINE_REGEX (rstrip x) = None"
    and noend: "\<forall>x\<in>set (opening # mid). re_match FIND_SECTION_END_LINE_REGEX (rstrip x) = None"
    and fin: "re_match FIND_SECTION_END_LINE_REGEX (rstrip closing) \<noteq> None"
    and others: "\<forall>x\<in>set (lines_by_find_line_regex s). fst x \<noteq> find_line_regex_of p
                   \<longrightarrow> (\<forall>y\<in>set (opening # mid @ [closing]). re_match (fst x) (rstrip y) = None)"
    and sec: "SanitizerSection (header # body @ [summary]) = Inr sec"
  shows "add_lines s (opening # mid @ [closing])
           = Inr (s\<lparr>count_by_output_primary_key :=
                      fold increment (section_keys (package s) sec)
                        (count_by_output_primary_key s),
                    lines_by_find_line_regex :=
                      AList.delete (find_line_regex_of p) (lines_by_find_line_regex s)\<rparr>)"
proof -
  let ?r = "find_line_regex_of p"
  let ?its = "lines_by_find_line_regex s"
  let ?s1 = "s\<lparr>lines_by_find_line_regex := AList.update ?r [header] ?its\<rparr>"
  let ?s2 = "s\<lparr>lines_by_find_line_regex := AList.update ?r ([header] @ body) ?its\<rparr>"
  have a: "add_line s opening = Inr ?s1"
    by (rule add_line_start_line [OF start _ _ tx(1)]) (use noend others nl in simp_all)
  have b: "add_lines ?s1 mid = Inr ?s2"
    by (rule add_lines_body [OF tx(2)]) (use nostart noend others nl in simp_all)
  have pend: "lines_by_find_line_regex ?s2 = AList.update ?r ([header] @ body) ?its" by simp
  have st: "re_match FIND_SECTION_START_LINE_REGEX (rstrip closing) = None" using nostart by simp
  have ot: "\<forall>y\<in>set ?its. fst y \<noteq> ?r \<longrightarrow> re_match (fst y) (rstrip closing) = None"
    using others by simp
  have n: "newline \<notin> set summary" using nl by simp
  have c: "add_line ?s2 closing
             = Inr (s\<lparr>count_by_output_primary_key :=
                      fold increment (section_keys (package s) sec)
                        (count_by_output_primary_key s),
                    lines_by_find_line_regex := AList.delete ?r ?its\<rparr>)"
  proof -
    from fin obtain e where "re_match FIND_SECTION_END_LINE_REGEX (rstrip closing) = Some e"
      by blast
    then show ?thesis unfolding add_line_section_line [OF pend st ot tx(3) n] using sec by simp
  qed
  show ?thesis using a b c by (simp add: add_lines_append)
qed

text \<open>
  Claim C1 as stated fails in two ways. In the first stream the section has a line that
  is itself a start line, with a longer prefix: the first pass counts the key once and
  leaves that prefix pending, and in the second pass the pending pattern, which now comes
  before the section's own, takes the frame line, so that the section is built without a
  stack trace and the count stays 1. In the second stream a section with the empty prefix
  is pending: in the first pass it takes the lines of the section and is counted under its
  own error name, and the second pass counts the section under another key, so that no
  count reaches 2.
\<close>

theorem second_pass_counterexample:
  "add_lines SanitizerLogParser
     [''xERROR: ASanitizer: n'', ''x    #0 0x1 in f /ros2/a'', ''x   ERROR: Sanitizer: foo'',
      ''xSUMMARY: ASanitizer: n'']
   = Inr \<lparr>count_by_output_primary_key = [((None, ''n'', ''f /ros2/a''), 1)], package = None,
          lines_by_find_line_regex = [(find_line_regex_of ''x   '', [])]\<rparr>
   \<and> add_lines
       \<lparr>count_by_output_primary_key = [((None, ''n'', ''f /ros2/a''), 1)], package = None,
        lines_by_find_line_regex = [(find_line_regex_of ''x   '', [])]\<rparr>
       [''xERROR: ASanitizer: n'', ''x    #0 0x1 in f /ros2/a'', ''x   ERROR: Sanitizer: foo'',
        ''xSUMMARY: ASanitizer: n'']
     = Inr \<lparr>count_by_output_primary_key = [((None, ''n'', ''f /ros2/a''), 1)], package = None,
            lines_by_find_line_regex =
              [(find_line_regex_of ''x   '', [''ERROR: Sanitizer: foo''])]\<rparr>
   \<and> add_lines SanitizerLogParser [''ERROR: ASanitizer: A'', ''    #0 0x1 in g /ros2/b'']
     = Inr \<lparr>count_by_output_primary_key = [], package = None,
            lines_by_find_line_regex =
              [(find_line_regex_of '''',
                [''ERROR: ASanitizer: A'', ''    #0 0x1 in g /ros2/b''])]\<rparr>
   \<and> add_lines
       \<lparr>count_by_output_primary_key = [], package = None,
        lines_by_find_line_regex =
          [(find_line_regex_of '''', [''ERROR: ASanitizer: A'', ''    #0 0x1 in g /ros2/b''])]\<rparr>
       ['' ERROR: BSanitizer: B'', ''     #0 0x1 in f /ros2/a'', '' SUMMARY: BSanitizer: B'']
     = Inr \<lparr>count_by_output_primary_key = [((None, ''A'', ''g /ros2/b''), 1)], package = None,
            lines_by_find_line_regex = [(find_line_regex_of '' '', [])]\<rparr>
   \<and> add_lines
       \<lparr>count_by_output_primary_key = [((None, ''A'', ''g /ros2/b''), 1)], package = None,
        lines_by_find_line_regex = [(find_line_regex_of '' '', [])]\<rparr>
       ['' ERROR: BSanitizer: B'', ''     #0 0x1 in f /ros2/a'', '' SUMMARY: BSanitizer: B'']
     = Inr \<lparr>count_by_output_primary_key =
              [((None, ''A'', ''g /ros2/b''), 1), ((None, ''B'', ''f /ros2/a''), 1)],
            package = None, lines_by_find_line_regex = []\<rparr>"
  by code_simp

text \<open>
  Claim C1, amended. Take the lines of a section with the prefix \<open>p\<close>: an opening line
  that registers \<open>p\<close>, lines that are neither start lines nor summary lines, and a summary
  line, each of them \<open>p\<close> followed by a text without a line break; \<open>sec\<close> is the section
  built from these texts. In a parser where no pending pattern other than that of \<open>p\<close>
  matches one of these lines, a first pass succeeds and increments the keys of \<open>sec\<close>, and
  a second pass succeeds and increments the same keys again. The second pass creates no
  entry; the keys of the report stay pairwise distinct and are those present before and
  those of \<open>sec\<close>; the report has one row for each of them behind its header row; and every
  count has grown by twice the number of times \<open>sec\<close> produces the key, so that a key
  produced once per pass and absent before has count 2.
\<close>

theorem same_section_twice:
  assumes start: "re_match FIND_SECTION_START_LINE_REGEX (rstrip opening) = Some gs"
                 "groupdict gs ''prefix'' = p"
    and tx: "rstrip opening = p @ header" "map rstrip mid = map ((@) p) body"
            "rstrip closing = p @ summary"
    and nl: "\<forall>l\<in>set (header # body @ [summary]). newline \<notin> set l"
    and nostart: "\<forall>x\<in>set (mid @ [closing]).
                     re_match FIND_SECTION_START_LINE_REGEX (rstrip x) = None"
    and noend: "\<forall>x\<in>set (opening # mid). re_match FIND_SECTION_END_LINE_REGEX (rstrip x) = None"
    and fin: "re_match FIND_SECTION_END_LINE_REGEX (rstrip closing) \<noteq> None"
    and others: "\<forall>x\<in>set (lines_by_find_line_regex self). fst x \<noteq> find_line_regex_of p
                   \<longrightarrow> (\<forall>y\<in>set (opening # mid @ [closing]). re_match (fst x) (rstrip y) = None)"
    and sec: "SanitizerSection (header # body @ [summary]) = Inr sec"
    and dist: "distinct (map fst (count_by_output_primary_key self))"
  shows "\<exists>self1 self2.
           add_lines self (opening # mid @ [closing]) = Inr self1
         \<and> add_lines self1 (opening # mid @ [closing]) = Inr self2
         \<and> count_by_output_primary_key self1
             = fold increment (section_keys (package self) sec) (count_by_output_primary_key self)
         \<and> count_by_output_primary_key self2
             = fold increment (section_keys (package self) sec) (count_by_output_primary_key self1)
         \<and> map fst (count_by_output_primary_key self2) = map fst (count_by_output_primary_key self1)
         \<and> distinct (map fst (count_by_output_primary_key self2))
         \<and> fst ` set (count_by_output_primary_key self2)
             = fst ` set (count_by_output_primary_key self) \<union> set (section_keys (package self) sec)
         \<and> (\<forall>k. count_of (count_by_output_primary_key self2) k
                  = count_of (count_by_output_primary_key self) k
                    + 2 * int (count_list (section_keys (package self) sec) k))
         \<and> length (fst (csv self2))
             = Suc (card (fst ` set (count_by_output_primary_key self)
                          \<union> set (section_keys (package self) sec)))"
proof -
  let ?r = "find_line_regex_of p"
  let ?K = "section_keys (package self) sec"
  let ?c0 = "count_by_output_primary_key self"
  let ?c1 = "fold increment ?K ?c0"
  let ?c2 = "fold increment ?K ?c1"
  let ?ls = "opening # mid @ [closing]"
  let ?self1 = "self\<lparr>count_by_output_primary_key := ?c1,
                      lines_by_find_line_regex := AList.delete ?r (lines_by_find_line_regex self)\<rparr>"
  let ?self2 = "?self1\<lparr>count_by_output_primary_key := ?c2,
                        lines_by_find_line_regex :=
                          AList.delete ?r (lines_by_find_line_regex ?self1)\<rparr>"
  have p1: "add_lines self ?ls = Inr ?self1"
    by (rule one_pass [OF start tx nl nostart noend fin others sec])
  have others1: "\<forall>x\<in>set (lines_by_find_line_regex ?self1). fst x \<noteq> ?r
                   \<longrightarrow> (\<forall>y\<in>set ?ls. re_match (fst x) (rstrip y) = None)"
  proof (intro ballI impI)
    fix x y
    assume x: "x \<in> set (lines_by_find_line_regex ?self1)" and n: "fst x \<noteq> ?r"
      and y: "y \<in> set ?ls"
    from x have "x \<in> set (AList.delete ?r (lines_by_find_line_regex self))" by simp
    then have "x \<in> set (lines_by_find_line_regex self)" by (rule delete_entries)
    with others n y show "re_match (fst x) (rstrip y) = None" by blast
  qed
  have "add_lines ?self1 ?ls
          = Inr (?self1\<lparr>count_by_output_primary_key :=
                            fold increment (section_keys (package ?self1) sec)
                              (count_by_output_primary_key ?self1),
                          lines_by_find_line_regex :=
                            AList.delete ?r (lines_by_find_line_regex ?self1)\<rparr>)"
    by (rule one_pass [OF start tx nl nostart noend fin others1 sec])
  then have p2: "add_lines ?self1 ?ls = Inr ?self2" by simp
  have sub: "set ?K \<subseteq> fst ` set ?c1"
    by (simp add: set_keys_fold_increment)
  have keys: "map fst ?c2 = map fst ?c1"
    by (rule keys_fold_increment_present [OF sub])
  have d1: "distinct (map fst ?c1)" by (rule distinct_fold_increment [OF dist])
  have d2: "distinct (map fst ?c2)" unfolding keys by (rule d1)
  have ks: "fst ` set ?c2 = fst ` set ?c0 \<union> set ?K"
    by (auto simp: set_keys_fold_increment)
  have cnt: "\<forall>k. count_of ?c2 k = count_of ?c0 k + 2 * int (count_list ?K k)"
    by (simp add: count_of_fold_increment)
  have "length ?c2 = length (map fst ?c2)" by simp
  also have "\<dots> = card (set (map fst ?c2))" by (rule distinct_card [OF d2, symmetric])
  also have "\<dots> = card (fst ` set ?c0 \<union> set ?K)" using ks by simp
  finally have len: "length (fst (csv ?self2)) = Suc (card (fst ` set ?c0 \<union> set ?K))"
    by (simp add: csv_def)
  have c1: "count_by_output_primary_key ?self1 = ?c1" by simp
  have c2: "count_by_output_primary_key ?self2 = ?c2" by simp
  show ?thesis
    apply (rule exI [of _ ?self1], rule exI [of _ ?self2])
    unfolding c1 c2
    using p1 p2 keys d2 ks cnt len by (intro conjI) simp_all
qed

theorem same_section_twice_witness:
  "\<exists>self1 self2.
     add_lines
       \<lparr>count_by_output_primary_key = [], package = Some ''p'',
        lines_by_find_line_regex = [(find_line_regex_of ''zz'', [''q''])]\<rparr>
       (''1: ERROR: ASanitizer: x  '' # [''1:  #0 0x1 in f /ros2/a''] @ [''1: SUMMARY: ASanitizer: x''])
       = Inr self1
     \<and> add_lines self1
       (''1: ERROR: ASanitizer: x  '' # [''1:  #0 0x1 in f /ros2/a''] @ [''1: SUMMARY: ASanitizer: x''])
       = Inr self2
     \<and> count_by_output_primary_key self1 = [((Some ''p'', ''x'', ''f /ros2/a''), 1)]
     \<and> count_by_output_primary_key self2 = [((Some ''p'', ''x'', ''f /ros2/a''), 2)]
     \<and> length (fst (csv self2)) = 2"
proof -
  let ?self = "\<lparr>count_by_output_primary_key = [], package = Some ''p'',
        lines_by_find_line_regex = [(find_line_regex_of ''zz'', [''q''])]\<rparr>"
  let ?sec = "\<lparr>error_name = ''x'',
               parts = [\<lparr>relevant_stack_traces = [\<lparr>key = ''f /ros2/a''\<rparr>]\<rparr>,
                        \<lparr>relevant_stack_traces = []\<rparr>]\<rparr>"
  have start: "re_match FIND_SECTION_START_LINE_REGEX (rstrip ''1: ERROR: ASanitizer: x  '')
                 = Some [(''prefix'', ''1: '')]"
    "groupdict [(''prefix'', ''1: '')] ''prefix'' = ''1: ''"
    by code_simp+
  have tx: "rstrip ''1: ERROR: ASanitizer: x  '' = ''1: '' @ ''ERROR: ASanitizer: x''"
    "map rstrip [''1:  #0 0x1 in f /ros2/a''] = map ((@) ''1: '') ['' #0 0x1 in f /ros2/a'']"
    "rstrip ''1: SUMMARY: ASanitizer: x'' = ''1: '' @ ''SUMMARY: ASanitizer: x''"
    by code_simp+
  have nl: "\<forall>l\<in>set (''ERROR: ASanitizer: x'' # ['' #0 0x1 in f /ros2/a'']
                       @ [''SUMMARY: ASanitizer: x'']). newline \<notin> set l"
    by code_simp
  have nostart: "\<forall>x\<in>set ([''1:  #0 0x1 in f /ros2/a''] @ [''1: SUMMARY: ASanitizer: x'']).
                     re_match FIND_SECTION_START_LINE_REGEX (rstrip x) = None"
    by code_simp
  have noend: "\<forall>x\<in>set (''1: ERROR: ASanitizer: x  '' # [''1:  #0 0x1 in f /ros2/a'']).
                 re_match FIND_SECTION_END_LINE_REGEX (rstrip x) = None"
    by code_simp
  have fin: "re_match FIND_SECTION_END_LINE_REGEX (rstrip ''1: SUMMARY: ASanitizer: x'') \<noteq> None"
    by code_simp
  have others: "\<forall>x\<in>set (lines_by_find_line_regex ?self). fst x \<noteq> find_line_regex_of ''1: ''
       \<longrightarrow> (\<forall>y\<in>set (''1: ERROR: ASanitizer: x  '' # [''1:  #0 0x1 in f /ros2/a'']
                       @ [''1: SUMMARY: ASanitizer: x'']). re_match (fst x) (rstrip y) = None)"
    by code_simp
  have sec: "SanitizerSection (''ERROR: ASanitizer: x'' # ['' #0 0x1 in f /ros2/a'']
                                 @ [''SUMMARY: ASanitizer: x'']) = Inr ?sec"
    by code_simp
  have dist: "distinct (map fst (count_by_output_primary_key ?self))" by simp
  have k: "section_keys (package ?self) ?sec = [(Some ''p'', ''x'', ''f /ros2/a'')]"
    by (simp add: section_keys_def)
  from same_section_twice [OF start tx nl nostart noend fin others sec dist]
  obtain self1 self2 where
    a: "add_lines ?self
          (''1: ERROR: ASanitizer: x  '' # [''1:  #0 0x1 in f /ros2/a'']
             @ [''1: SUMMARY: ASanitizer: x'']) = Inr self1"
    and b: "add_lines self1
          (''1: ERROR: ASanitizer: x  '' # [''1:  #0 0x1 in f /ros2/a'']
             @ [''1: SUMMARY: ASanitizer: x'']) = Inr self2"
    and c1: "count_by_output_primary_key self1
               = fold increment (section_keys (package ?self) ?sec)
                   (count_by_output_primary_key ?self)"
    and c2: "count_by_output_primary_key self2
               = fold increment (section_keys (package ?self) ?sec)
                   (count_by_output_primary_key self1)"
    by blast
  have f1: "count_by_output_primary_key self1 = [((Some ''p'', ''x'', ''f /ros2/a''), 1)]"
    unfolding c1 k by (simp add: increment_def)
  have f2: "count_by_output_primary_key self2 = [((Some ''p'', ''x'', ''f /ros2/a''), 2)]"
    unfolding c2 f1 k by (simp add: increment_def)
  have f3: "length (fst (csv self2)) = 2" by (simp add: csv_def f2)
  show ?thesis
    by (rule exI [of _ self1], rule exI [of _ self2]) (intro conjI a b f1 f2 f3)
qed


section \<open>A stack trace without an in-codebase frame\<close>

text \<open>
  Claim C4 as stated fails. In the stream below the first stack trace of a data race has
  no line under \<open>/ros2\<close>; its sibling has one. The assertion of the stack trace ends
  \<open>add_line\<close> on the summary line: the sibling is not counted, the section stays pending
  and the sections that follow in the stream are never read.
\<close>

theorem malformed_trace_counterexample:
  "add_lines (set_package SanitizerLogParser (Some ''p''))
     [''ERROR: ASanitizer: data race'', '' Read of size 1 at 0x1 a'', '' #0 f'',
      '' Previous read of size 1 at 0x1 b'', '' #0 /ros2'', ''SUMMARY: ASanitizer: x'',
      ''ERROR: ASanitizer: y'', '' #0 /ros2/c'', ''SUMMARY: ASanitizer: y'']
   = Inl (AssertionError,
       \<lparr>count_by_output_primary_key = [], package = Some ''p'',
        lines_by_find_line_regex =
          [(find_line_regex_of '''',
            [''ERROR: ASanitizer: data race'', '' Read of size 1 at 0x1 a'', '' #0 f'',
             '' Previous read of size 1 at 0x1 b'', '' #0 /ros2'',
             ''SUMMARY: ASanitizer: x''])]\<rparr>)
   \<and> SanitizerSectionPartStackTrace ['' #0 /ros2''] = Inr \<lparr>key = ''/ros2''\<rparr>"
  by code_simp

text \<open>
  Claim C4, amended. Let the stripped line be a summary line that the first matching
  pending section takes, and let the lines of that section hold a part (\<open>pre\<close> is what
  comes before it, \<open>post\<close> what comes after it) in which the loop of the part closes a
  stack trace without a line that matches the in-codebase pattern; \<open>closed\<close> lists the
  line sequences the loop closes, recorded by running it with a constructor that keeps its
  lines. Then \<open>add_line\<close> raises the assertion error. The counts and the package are those
  before the call, so no stack trace of the section is counted, sibling or not; the section
  stays pending, with the summary line in its buffer; and feeding any further lines ends
  with the same error.
\<close>

theorem failed_section_counts_nothing:
  assumes items: "lines_by_find_line_regex (register_start self (rstrip line))
                    = before @ (rx, buf) # after"
    and skip: "\<forall>x\<in>set before. re_match (fst x) (rstrip line) = None"
    and hit: "re_match rx (rstrip line) = Some g"
    and fin: "re_match FIND_SECTION_END_LINE_REGEX (rstrip line) \<noteq> None"
    and name: "find_error_name (buf @ [groupdict g ''line'']) = Inr name"
    and part: "buf @ [groupdict g ''line''] = pre @ part @ post" "part \<noteq> []"
    and head: "pre = [] \<or> matches FIND_SECTION_PART_BEGIN_REGEX (hd part)"
    and cont: "\<forall>x\<in>set (tl part). \<not> matches FIND_SECTION_PART_BEGIN_REGEX x"
    and post: "post = [] \<or> matches FIND_SECTION_PART_BEGIN_REGEX (hd post)"
    and closed: "part_traces Inr name part = Inr closed" "trace \<in> set closed"
    and marker: "\<forall>x\<in>set trace. re_match FIND_KEY_REGEX x = None"
  shows "\<exists>self'. add_line self line = Inl (AssertionError, self')
           \<and> count_by_output_primary_key self' = count_by_output_primary_key self
           \<and> package self' = package self
           \<and> lines_by_find_line_regex self' = before @ (rx, buf @ [groupdict g ''line'']) # after
           \<and> (\<forall>more. add_lines self (line # more) = Inl (AssertionError, self'))"
proof -
  let ?l = "rstrip line"
  let ?s = "register_start self ?l"
  let ?buf = "buf @ [groupdict g ''line'']"
  let ?s' = "?s\<lparr>lines_by_find_line_regex := before @ (rx, ?buf) # after\<rparr>"
  have cp: "count_by_output_primary_key ?s = count_by_output_primary_key self"
           "package ?s = package self"
    by (simp_all add: register_start_def split: option.splits)
  from marker have "find_key trace = None" by (simp add: find_key_None)
  from part_with_bad_trace [OF closed this]
  have "SanitizerSectionPart name part = Inl AssertionError" .
  from section_bad_part [OF part head cont post this]
  have "section_loop name ?buf [] [] = Inl AssertionError" .
  with name have sec: "SanitizerSection ?buf = Inl AssertionError"
    by (simp add: SanitizerSection_def)
  from skip hit have nb: "rx \<notin> fst ` set before" by force
  have up: "AList.update rx ?buf (lines_by_find_line_regex ?s) = before @ (rx, ?buf) # after"
    using items update_first_entry [OF nb] by simp
  have run: "add_line self line = route ?s ?l ((rx, buf) # after)"
    using route_skips [OF skip, of ?s "(rx, buf) # after"] items
    by (simp add: add_line_def Let_def)
  from fin obtain e where e: "re_match FIND_SECTION_END_LINE_REGEX ?l = Some e" by blast
  have a: "add_line self line = Inl (AssertionError, ?s')"
    unfolding run using hit up e sec by (simp add: Let_def)
  then have b: "\<forall>more. add_lines self (line # more) = Inl (AssertionError, ?s')" by simp
  show ?thesis
    by (rule exI [of _ ?s']) (use a b cp in simp)
qed

theorem failed_section_counts_nothing_witness:
  "add_lines
     \<lparr>count_by_output_primary_key = [((Some ''p'', ''x'', ''y''), 1)], package = Some ''p'',
      lines_by_find_line_regex =
        [(find_line_regex_of ''zz'', []),
         (find_line_regex_of '''',
            [''E: Sanitizer: data race'', '' Read of size 1 at 0x1 a'', '' #0 f'',
             '' Previous read of size 1 at 0x1 b'', '' #0 /ros2''])]\<rparr>
     (''SUMMARY: Sanitizer: d'' # [''E: Sanitizer: later'', '' #0 /ros2/c'', ''SUMMARY: Sanitizer: e''])
   = Inl (AssertionError,
     \<lparr>count_by_output_primary_key = [((Some ''p'', ''x'', ''y''), 1)], package = Some ''p'',
      lines_by_find_line_regex =
        [(find_line_regex_of ''zz'', []),
         (find_line_regex_of '''',
            [''E: Sanitizer: data race'', '' Read of size 1 at 0x1 a'', '' #0 f'',
             '' Previous read of size 1 at 0x1 b'', '' #0 /ros2'', ''SUMMARY: Sanitizer: d''])]\<rparr>)"
proof -
  let ?buf = "[''E: Sanitizer: data race'', '' Read of size 1 at 0x1 a'', '' #0 f'',
             '' Previous read of size 1 at 0x1 b'', '' #0 /ros2'']"
  let ?self = "\<lparr>count_by_output_primary_key = [((Some ''p'', ''x'', ''y''), 1)], package = Some ''p'',
      lines_by_find_line_regex = [(find_line_regex_of ''zz'', []), (find_line_regex_of '''', ?buf)]\<rparr>"
  let ?line = "''SUMMARY: Sanitizer: d''"
  let ?g = "[(''line'', ''SUMMARY: Sanitizer: d'')]"
  have items: "lines_by_find_line_regex (register_start ?self (rstrip ?line))
                 = [(find_line_regex_of ''zz'', [])] @ (find_line_regex_of '''', ?buf) # []"
    by code_simp
  have skip: "\<forall>x\<in>set [(find_line_regex_of ''zz'', [])]. re_match (fst x) (rstrip ?line) = None"
    by code_simp
  have hit: "re_match (find_line_regex_of '''') (rstrip ?line) = Some ?g" by code_simp
  have fin: "re_match FIND_SECTION_END_LINE_REGEX (rstrip ?line) \<noteq> None" by code_simp
  have name: "find_error_name (?buf @ [groupdict ?g ''line'']) = Inr ''data race''" by code_simp
  have part: "?buf @ [groupdict ?g ''line''] = [] @ ?buf @ [''SUMMARY: Sanitizer: d'']" "?buf \<noteq> []"
    by code_simp+
  have head: "[] = [] \<or> matches FIND_SECTION_PART_BEGIN_REGEX (hd ?buf)" by simp
  have cont: "\<forall>x\<in>set (tl ?buf). \<not> matches FIND_SECTION_PART_BEGIN_REGEX x" by code_simp
  have post: "[''SUMMARY: Sanitizer: d''] = []
                \<or> matches FIND_SECTION_PART_BEGIN_REGEX (hd [''SUMMARY: Sanitizer: d''])"
    by code_simp
  have closed: "part_traces Inr ''data race'' ?buf = Inr [['' #0 f''], ['' #0 /ros2'']]"
    "['' #0 f''] \<in> set [['' #0 f''], ['' #0 /ros2'']]"
    by code_simp+
  have marker: "\<forall>x\<in>set ['' #0 f'']. re_match FIND_KEY_REGEX x = None" by code_simp
  from failed_section_counts_nothing
         [OF items skip hit fin name part head cont post closed marker]
  obtain self' where
    c: "count_by_output_primary_key self' = count_by_output_primary_key ?self"
       "package self' = package ?self"
       "lines_by_find_line_regex self'
          = [(find_line_regex_of ''zz'', [])]
              @ (find_line_regex_of '''', ?buf @ [groupdict ?g ''line'']) # []"
    and run: "\<forall>more. add_lines ?self (?line # more) = Inl (AssertionError, self')"
    by blast
  have "self' = \<lparr>count_by_output_primary_key = [((Some ''p'', ''x'', ''y''), 1)], package = Some ''p'',
      lines_by_find_line_regex =
        [(find_line_regex_of ''zz'', []),
         (find_line_regex_of '''', ?buf @ [''SUMMARY: Sanitizer: d''])]\<rparr>"
    using c by (cases self') (simp add: groupdict_def)
  with run show ?thesis by simp
qed


end
